theory Spec2Isabelle
  imports Complex_Main "HOL-Library.Word"
begin

unbundle bit_operations_syntax

section \<open>Data model\<close>

text \<open>
  The pipeline of \<^verbatim>\<open>gbcProcessor.js\<close> works on browser \<^verbatim>\<open>ImageData\<close> objects:
  a width, a height and a \<^verbatim>\<open>Uint8ClampedArray\<close> of RGBA bytes in row-major order.
  A channel is an 8-bit word. A JavaScript Number is an IEEE double. The tone stage and
  the dithering are modelled with exact reals; where a theorem depends on a rounded
  value, a lemma bounds the distance from the point where rounding could change the
  result. The blend of \<^verbatim>\<open>edgeEnhance\<close> can sit on such a point, so that function takes
  the arithmetic of Numbers as a parameter (\<open>number_ops\<close> below).
\<close>

type_synonym byte = "8 word"

record ImageData =
  width :: nat
  height :: nat
  data :: "byte list"

text \<open>
  The invariant that the browser guarantees for every \<^verbatim>\<open>ImageData\<close>: both sides are
  at least one pixel long and the buffer holds four bytes per pixel. On such an image
  every read of the pipeline is inside the buffer; the theorems below assume the
  invariant, so no statement rests on a read out of range (\<^verbatim>\<open>undefined\<close> in
  JavaScript, unspecified for \<open>!\<close>). A write out of range is ignored by a typed array
  and by a list update alike.
\<close>

definition wf_image :: "ImageData \<Rightarrow> bool" where
  "wf_image img \<longleftrightarrow>
     0 < width img \<and> 0 < height img \<and> length (data img) = width img * height img * 4"

text \<open>
  A store of a Number into a \<^verbatim>\<open>Uint8ClampedArray\<close> (ToUint8Clamp of ECMAScript):
  clamp to 0..255, then round to the nearest integer, a tie going to the even one.
\<close>

definition toUint8Clamp :: "real \<Rightarrow> byte" where
  "toUint8Clamp r =
     (if r \<le> 0 then 0
      else if 255 \<le> r then 255
      else (let f = \<lfloor>r\<rfloor> in
            if r < of_int f + 1 / 2 then of_int f
            else if of_int f + 1 / 2 < r then of_int (f + 1)
            else if even f then of_int f else of_int (f + 1)))"

text \<open>A read of a channel as a Number.\<close>

definition num :: "byte \<Rightarrow> real" where
  "num b = real (unat b)"

text \<open>
  The arithmetic of Numbers that \<^verbatim>\<open>edgeEnhance\<close> uses: the read of a byte, an integer
  literal, \<^verbatim>\<open>+\<close>, \<^verbatim>\<open>-\<close>, \<^verbatim>\<open>*\<close>, \<^verbatim>\<open>Math.max\<close>, \<^verbatim>\<open>Math.min\<close> and the store into a
  \<^verbatim>\<open>Uint8ClampedArray\<close>. The program runs on the operations of IEEE doubles (with
  NaN and the infinities); \<open>exactOps\<close> is the arithmetic of exact reals.
\<close>

record 'n number_ops =
  ofByte :: "byte \<Rightarrow> 'n"
  ofLiteral :: "int \<Rightarrow> 'n"
  addN :: "'n \<Rightarrow> 'n \<Rightarrow> 'n"
  subN :: "'n \<Rightarrow> 'n \<Rightarrow> 'n"
  mulN :: "'n \<Rightarrow> 'n \<Rightarrow> 'n"
  mathMax :: "'n \<Rightarrow> 'n \<Rightarrow> 'n"
  mathMin :: "'n \<Rightarrow> 'n \<Rightarrow> 'n"
  toByte :: "'n \<Rightarrow> byte"

definition exactOps :: "real number_ops" where
  "exactOps =
     \<lparr>ofByte = num, ofLiteral = of_int, addN = (+), subN = (-), mulN = (*),
      mathMax = max, mathMin = min, toByte = toUint8Clamp\<rparr>"

text \<open>The pixel at column \<open>x\<close> and row \<open>y\<close>, as its four channels.\<close>

definition pixelAt :: "ImageData \<Rightarrow> nat \<Rightarrow> nat \<Rightarrow> byte \<times> byte \<times> byte \<times> byte" where
  "pixelAt img x y =
     (let idx = (y * width img + x) * 4
      in (data img ! idx, data img ! (idx + 1), data img ! (idx + 2), data img ! (idx + 3)))"

section \<open>Constants of gbcProcessor.js\<close>

definition GBC_WIDTH :: nat where
  "GBC_WIDTH = 128"

definition GBC_HEIGHT :: nat where
  "GBC_HEIGHT = 112"

definition BAYER_4x4 :: "real list list" where
  "BAYER_4x4 =
     [[0 / 16, 8 / 16, 2 / 16, 10 / 16],
      [12 / 16, 4 / 16, 14 / 16, 6 / 16],
      [3 / 16, 11 / 16, 1 / 16, 9 / 16],
      [15 / 16, 7 / 16, 13 / 16, 5 / 16]]"

definition EDGE_KERNEL :: "int list" where
  "EDGE_KERNEL =
     [0, -1, 0,
      -1, 5, -1,
      0, -1, 0]"

section \<open>Ordered dithering and palette mapping\<close>

type_synonym rgb = "byte \<times> byte \<times> byte"

text \<open>The quantisation of \<^verbatim>\<open>ditherAndColorize\<close>: the if-chain that picks the shade.\<close>

definition shadeOf :: "real \<Rightarrow> nat" where
  "shadeOf dithered =
     (if dithered < 0.25 then 0
      else if dithered < 0.5 then 1
      else if dithered < 0.75 then 2
      else 3)"

text \<open>The body of the inner loop of \<^verbatim>\<open>ditherAndColorize\<close>, for one \<open>(y, x)\<close>.\<close>

definition ditherPixel :: "nat \<Rightarrow> rgb list \<Rightarrow> nat \<Rightarrow> nat \<Rightarrow> byte list \<Rightarrow> byte list" where
  "ditherPixel w paletteRgb y x d =
     (let idx = (y * w + x) * 4;
          gray = num (d ! idx) / 255;
          threshold = BAYER_4x4 ! (y mod 4) ! (x mod 4) - 0.5;
          spread = 0.33;
          dithered = gray + threshold * spread;
          shade = shadeOf dithered;
          (r, g, b) = paletteRgb ! shade
      in d[idx := r, idx + 1 := g, idx + 2 := b, idx + 3 := 255])"

definition ditherAndColorize :: "ImageData \<Rightarrow> rgb list \<Rightarrow> ImageData" where
  "ditherAndColorize imageData paletteRgb =
     imageData\<lparr>data :=
       fold (\<lambda>y. fold (\<lambda>x. ditherPixel (width imageData) paletteRgb y x)
                        [0..<width imageData])
            [0..<height imageData] (data imageData)\<rparr>"

section \<open>Tone stage\<close>

text \<open>
  The values of the loop variable of \<^verbatim>\<open>for (let i = 0; i < d.length; i += 4)\<close>:
  the multiples of four below the length of the buffer.
\<close>

definition pixelStarts :: "nat \<Rightarrow> nat list" where
  "pixelStarts n = map (\<lambda>k. 4 * k) [0..<(n + 3) div 4]"

text \<open>
  The body of the loop of \<^verbatim>\<open>toGrayscale\<close>. The chained assignment stores the same
  Number \<open>lum\<close> into the three colour channels, each store rounding it to a byte.
  \<open>lum\<close> and the value of \<^verbatim>\<open>applyContrast\<close> below are exact reals: where the exact
  value is a rounding tie (luminance 59.5 for the pixel (0, 80, 110), contrast 10.5 for
  byte 30 at factor 1.2) the double of the program lies beside it and the stored byte
  can differ by one. The theorems use these two functions only where the stored byte
  is the same: on gray pixels and at factor 1.0 (\<open>toUint8Clamp_near\<close>), or where only
  the size of the buffer matters.
\<close>

definition grayscaleStep :: "nat \<Rightarrow> byte list \<Rightarrow> byte list" where
  "grayscaleStep i d =
     (let lum = 0.299 * num (d ! i) + 0.587 * num (d ! (i + 1)) + 0.114 * num (d ! (i + 2))
      in d[i + 2 := toUint8Clamp lum, i + 1 := toUint8Clamp lum, i := toUint8Clamp lum])"

definition toGrayscale :: "ImageData \<Rightarrow> ImageData" where
  "toGrayscale imageData =
     imageData\<lparr>data := fold grayscaleStep (pixelStarts (length (data imageData))) (data imageData)\<rparr>"

definition contrastValue :: "real \<Rightarrow> byte \<Rightarrow> real" where
  "contrastValue factor b = max 0 (min 255 (((num b / 255 - 0.5) * factor + 0.5) * 255))"

definition contrastStep :: "real \<Rightarrow> nat \<Rightarrow> byte list \<Rightarrow> byte list" where
  "contrastStep factor i d =
     (let v = contrastValue factor (d ! i)
      in d[i + 2 := toUint8Clamp v, i + 1 := toUint8Clamp v, i := toUint8Clamp v])"

definition applyContrast :: "ImageData \<Rightarrow> real \<Rightarrow> ImageData" where
  "applyContrast imageData factor =
     imageData\<lparr>data :=
       fold (contrastStep factor) (pixelStarts (length (data imageData))) (data imageData)\<rparr>"

section \<open>Edge enhancement\<close>

text \<open>
  The two inner loops of \<^verbatim>\<open>edgeEnhance\<close> over \<open>ky\<close> and \<open>kx\<close>: the kernel-weighted
  sum of the neighbourhood of \<open>(x, y)\<close>, read from the copy \<open>original\<close> and added up
  in the order of the loops, starting from 0.
\<close>

definition kernelSum :: "'n number_ops \<Rightarrow> nat \<Rightarrow> byte list \<Rightarrow> nat \<Rightarrow> nat \<Rightarrow> 'n" where
  "kernelSum ops w original y x =
     fold (\<lambda>ky. fold (\<lambda>kx sum.
             let idx = nat (((int y + ky) * int w + (int x + kx)) * 4)
             in addN ops sum
                  (mulN ops (ofByte ops (original ! idx))
                     (ofLiteral ops (EDGE_KERNEL ! nat ((ky + 1) * 3 + (kx + 1))))))
           [-1, 0, 1])
       [-1, 0, 1] (ofLiteral ops 0)"

definition edgePixel ::
  "'n number_ops \<Rightarrow> nat \<Rightarrow> 'n \<Rightarrow> byte list \<Rightarrow> nat \<Rightarrow> nat \<Rightarrow> byte list \<Rightarrow> byte list" where
  "edgePixel ops w strength original y x d =
     (let sum = kernelSum ops w original y x;
          idx = (y * w + x) * 4;
          enhanced = addN ops
                       (mulN ops (ofByte ops (original ! idx))
                          (subN ops (ofLiteral ops 1) strength))
                       (mulN ops sum strength);
          v = mathMax ops (ofLiteral ops 0) (mathMin ops (ofLiteral ops 255) enhanced)
      in d[idx + 2 := toByte ops v, idx + 1 := toByte ops v, idx := toByte ops v])"

text \<open>
  \<open>original\<close> is the copy \<^verbatim>\<open>new Uint8ClampedArray(data)\<close> taken before the loops;
  the loops run over \<open>1 \<le> y < height - 1\<close> and \<open>1 \<le> x < width - 1\<close>.
\<close>

definition edgeEnhance :: "'n number_ops \<Rightarrow> ImageData \<Rightarrow> 'n \<Rightarrow> ImageData" where
  "edgeEnhance ops imageData strength =
     (let original = data imageData
      in imageData\<lparr>data :=
           fold (\<lambda>y. fold (\<lambda>x. edgePixel ops (width imageData) strength original y x)
                            [1..<width imageData - 1])
                [1..<height imageData - 1] (data imageData)\<rparr>)"

section \<open>Palettes (palettes.js)\<close>

record Palette =
  name :: string
  colors :: "string list"

definition PALETTES :: "(string \<times> Palette) list" where
  "PALETTES =
     [(''classic'', \<lparr>name = ''Classic GB'', colors = [''#0f380f'', ''#306230'', ''#8bac0f'', ''#9bbc0f'']\<rparr>),
      (''sunset'', \<lparr>name = ''Sunset'', colors = [''#1a1034'', ''#8b3a62'', ''#e05a46'', ''#f2d09e'']\<rparr>),
      (''amber'', \<lparr>name = ''Amber'', colors = [''#1b1000'', ''#6b4e00'', ''#c8a800'', ''#ffffff'']\<rparr>),
      (''teal'', \<lparr>name = ''Teal'', colors = [''#0d1b0e'', ''#1a5c2a'', ''#3cb460'', ''#9fffb0'']\<rparr>),
      (''noir'', \<lparr>name = ''Noir'', colors = [''#000000'', ''#555555'', ''#aaaaaa'', ''#ffffff'']\<rparr>),
      (''vaporwave'', \<lparr>name = ''Vapor'', colors = [''#2b0040'', ''#8000a0'', ''#ff6090'', ''#ffcc80'']\<rparr>)]"

text \<open>
  \<^verbatim>\<open>parseInt(s, 16)\<close> on the strings of the registry: the value of the longest prefix
  of hexadecimal digits, NaN (\<open>None\<close>) when there is none. (The white space, sign and
  \<^verbatim>\<open>0x\<close> prefixes that \<^verbatim>\<open>parseInt\<close> also accepts do not occur in the registry and
  are left out.)
\<close>

definition hexDigit :: "char \<Rightarrow> nat option" where
  "hexDigit c =
     (let n = (of_char c :: nat)
      in if 48 \<le> n \<and> n \<le> 57 then Some (n - 48)
         else if 97 \<le> n \<and> n \<le> 102 then Some (n - 87)
         else if 65 \<le> n \<and> n \<le> 70 then Some (n - 55)
         else None)"

fun hexPrefix :: "nat option \<Rightarrow> string \<Rightarrow> nat option" where
  "hexPrefix acc [] = acc"
| "hexPrefix acc (c # cs) =
     (case hexDigit c of
        None \<Rightarrow> acc
      | Some v \<Rightarrow> hexPrefix (Some ((case acc of None \<Rightarrow> 0 | Some a \<Rightarrow> a) * 16 + v)) cs)"

definition parseInt16 :: "string \<Rightarrow> nat option" where
  "parseInt16 s = hexPrefix None s"

text \<open>ToInt32, applied by the operators \<^verbatim>\<open>>>\<close> and \<^verbatim>\<open>&\<close>: NaN becomes 0.\<close>

definition toInt32 :: "nat option \<Rightarrow> 32 word" where
  "toInt32 n = (case n of None \<Rightarrow> 0 | Some v \<Rightarrow> of_nat v)"

definition hexToRgb :: "string \<Rightarrow> rgb" where
  "hexToRgb hex =
     (let n = toInt32 (parseInt16 (drop 1 hex))
      in (ucast (signed_drop_bit 16 n AND 255), ucast (signed_drop_bit 8 n AND 255), ucast (n AND 255)))"

text \<open>
  \<^verbatim>\<open>PALETTES[paletteKey]\<close> is a property read on a plain object: an own property
  gives its palette; a name that the object inherits from \<^verbatim>\<open>Object.prototype\<close> gives
  a function or an object, which is truthy and has no \<^verbatim>\<open>colors\<close>; any other name
  gives \<^verbatim>\<open>undefined\<close>.
\<close>

datatype 'a property = Own 'a | Inherited | Undefined

definition Object_prototype_names :: "string list" where
  "Object_prototype_names =
     [''constructor'', ''hasOwnProperty'', ''isPrototypeOf'', ''propertyIsEnumerable'',
      ''toLocaleString'', ''toString'', ''valueOf'', ''__proto__'',
      ''__defineGetter__'', ''__defineSetter__'', ''__lookupGetter__'', ''__lookupSetter__'']"

definition PALETTES_get :: "string \<Rightarrow> Palette property" where
  "PALETTES_get paletteKey =
     (case map_of PALETTES paletteKey of
        Some palette \<Rightarrow> Own palette
      | None \<Rightarrow> if paletteKey \<in> set Object_prototype_names then Inherited else Undefined)"

text \<open>
  The exceptions: \<^verbatim>\<open>new Error(message)\<close>, thrown by \<^verbatim>\<open>getPaletteRgb\<close>, and the
  \<^verbatim>\<open>TypeError\<close> of the language for a property read on \<^verbatim>\<open>undefined\<close>.
\<close>

datatype error = Error string | TypeError

definition getPaletteRgb :: "string \<Rightarrow> error + rgb list" where
  "getPaletteRgb paletteKey =
     (case PALETTES_get paletteKey of
        Undefined \<Rightarrow> Inl (Error (''Unknown palette: '' @ paletteKey))
      | Inherited \<Rightarrow> Inl TypeError
      | Own palette \<Rightarrow> Inr (map hexToRgb (colors palette)))"

section \<open>The pipeline\<close>

text \<open>
  \<^verbatim>\<open>downscale\<close> hands the resampling to the browser: it puts the source on a canvas,
  draws that canvas at the target size and reads the pixels back. The browser's part is
  the parameter \<open>drawImage\<close>: from a source and a target size to the pixels read back.
\<close>

type_synonym canvas = "ImageData \<Rightarrow> nat \<Rightarrow> nat \<Rightarrow> ImageData"

definition downscale :: "canvas \<Rightarrow> ImageData \<Rightarrow> nat \<Rightarrow> nat \<Rightarrow> ImageData" where
  "downscale drawImage source targetW targetH = drawImage source targetW targetH"

text \<open>
  The options object: a missing property takes its default in \<^verbatim>\<open>processFrame\<close>.
  The pipeline is modelled at exact arithmetic, its edge stage included.
\<close>

record Options =
  contrast :: "real option"
  edgeStrength :: "real option"

definition processFrame :: "canvas \<Rightarrow> ImageData \<Rightarrow> string \<Rightarrow> Options \<Rightarrow> error + ImageData" where
  "processFrame drawImage sourceImageData paletteKey options =
     (let contrast' = (case contrast options of None \<Rightarrow> 1.2 | Some c \<Rightarrow> c);
          edgeStrength' = (case edgeStrength options of None \<Rightarrow> 0.3 | Some e \<Rightarrow> e)
      in case getPaletteRgb paletteKey of
           Inl e \<Rightarrow> Inl e
         | Inr paletteRgb \<Rightarrow>
             (let downscaled = downscale drawImage sourceImageData GBC_WIDTH GBC_HEIGHT;
                  gray = toGrayscale downscaled;
                  gray = applyContrast gray contrast';
                  gray = (if 0 < edgeStrength' then edgeEnhance exactOps gray edgeStrength' else gray)
              in Inr (ditherAndColorize gray paletteRgb)))"

text \<open>
  \<^verbatim>\<open>upscaleNearest\<close> computes the target size, switches image smoothing off and hands
  the draw to the browser, as \<^verbatim>\<open>downscale\<close> does: the browser's part is again the
  parameter \<open>drawImage\<close>, here the draw without smoothing.
\<close>

definition upscaleNearest :: "canvas \<Rightarrow> ImageData \<Rightarrow> nat \<Rightarrow> ImageData" where
  "upscaleNearest drawImage source scale =
     (let sw = width source;
          sh = height source;
          dw = sw * scale;
          dh = sh * scale
      in drawImage source dw dh)"

section \<open>Reference definitions for the comparisons\<close>

text \<open>
  The classic ordered-dither matrix of order 4, as it is usually constructed: from the
  order-2 matrix \<open>[[0, 2], [3, 1]]\<close>, the entry at \<open>(i, j)\<close> is four times the order-2
  entry of the position inside its 2\<times>2 cell plus the order-2 entry of the cell.
\<close>

definition bayer2 :: "nat \<Rightarrow> nat \<Rightarrow> nat" where
  "bayer2 i j = [[0, 2], [3, 1]] ! i ! j"

definition classicBayer4 :: "nat \<Rightarrow> nat \<Rightarrow> nat" where
  "classicBayer4 i j = 4 * bayer2 (i mod 2) (j mod 2) + bayer2 (i div 2) (j div 2)"

text \<open>
  Modelled from the spec: the browser's \<^verbatim>\<open>drawImage\<close> with
  \<^verbatim>\<open>imageSmoothingEnabled = false\<close>, read back by \<^verbatim>\<open>getImageData\<close>, which is not code
  of the repository. The spec describes the draw as an exact block replication with no
  smoothing and no interpolation, output pixel \<open>(x, y)\<close> being source pixel
  \<open>(\<lfloor>x / scale\<rfloor>, \<lfloor>y / scale\<rfloor>)\<close>. For a target of \<open>dw\<close> by \<open>dh\<close> pixels this is the
  source pixel \<open>(\<lfloor>x * sw / dw\<rfloor>, \<lfloor>y * sh / dh\<rfloor>)\<close>.
\<close>

definition drawImageNearest :: canvas where
  "drawImageNearest source dw dh =
     \<lparr>width = dw, height = dh,
      data = map (\<lambda>k. let p = k div 4;
                            c = k mod 4;
                            x = p mod dw;
                            y = p div dw;
                            sx = x * width source div dw;
                            sy = y * height source div dh
                        in data source ! ((sy * width source + sx) * 4 + c))
                 [0..<dw * dh * 4]\<rparr>"

text \<open>
  The pipeline with the edge enhancer left out altogether: palette, downscale,
  grayscale, contrast, dither and colourise.
\<close>

definition pipelineWithoutEdge :: "canvas \<Rightarrow> ImageData \<Rightarrow> string \<Rightarrow> Options \<Rightarrow> error + ImageData" where
  "pipelineWithoutEdge drawImage sourceImageData paletteKey options =
     (case getPaletteRgb paletteKey of
        Inl e \<Rightarrow> Inl e
      | Inr paletteRgb \<Rightarrow>
          Inr (ditherAndColorize
                 (applyContrast
                    (toGrayscale (downscale drawImage sourceImageData GBC_WIDTH GBC_HEIGHT))
                    (case contrast options of None \<Rightarrow> 1.2 | Some c \<Rightarrow> c))
                 paletteRgb))"

section \<open>Loops that write one pixel per step\<close>

lemma fold_nested_product:
  "fold (\<lambda>y. fold (\<lambda>x. f y x) xs) ys d = fold (\<lambda>(y, x). f y x) (List.product ys xs) d"
proof (induction ys arbitrary: d)
  case Nil
  show ?case by simp
next
  case (Cons y ys)
  have "fold (\<lambda>(y, x). f y x) (map (Pair y) xs) d = fold (\<lambda>x. f y x) xs d"
    by (simp add: fold_map comp_def)
  with Cons show ?case by simp
qed

lemma fold_length_preserved:
  assumes "\<And>p d. length (f p d) = length d"
  shows "length (fold f ps d) = length d"
  using assms by (induction ps arbitrary: d) simp_all

lemma fold_pixel_other:
  assumes other: "\<And>p d k. k div 4 \<noteq> ix p \<Longrightarrow> f p d ! k = d ! k"
    and "k div 4 \<notin> ix ` set ps"
  shows "fold f ps d ! k = d ! k"
  using assms(2)
proof (induction ps arbitrary: d)
  case Nil
  show ?case by simp
next
  case (Cons q qs)
  then have "fold f qs (f q d) ! k = f q d ! k" by simp
  moreover have "f q d ! k = d ! k" using Cons.prems by (intro other) auto
  ultimately show ?case by simp
qed

lemma fold_pixel_own:
  assumes other: "\<And>p d k. k div 4 \<noteq> ix p \<Longrightarrow> f p d ! k = d ! k"
    and own: "\<And>p d d' k. k div 4 = ix p \<Longrightarrow> length d' = length d \<Longrightarrow>
                 (\<forall>j. j div 4 = ix p \<longrightarrow> d' ! j = d ! j) \<Longrightarrow> f p d' ! k = f p d ! k"
    and len: "\<And>p d. length (f p d) = length d"
    and "distinct (map ix ps)" and "p \<in> set ps" and "k div 4 = ix p"
  shows "fold f ps d ! k = f p d ! k"
  using assms(4,5)
proof (induction ps arbitrary: d)
  case Nil
  then show ?case by simp
next
  case (Cons q qs)
  show ?case
  proof (cases "p = q")
    case True
    from Cons.prems have "k div 4 \<notin> ix ` set qs" using assms(6) True by auto
    then have "fold f qs (f q d) ! k = f q d ! k"
      using fold_pixel_other [of ix f k qs "f q d"] other by blast
    with True show ?thesis by simp
  next
    case False
    with Cons.prems have in_qs: "p \<in> set qs" and ne: "ix q \<noteq> ix p" and dist: "distinct (map ix qs)"
      by auto
    have "fold f qs (f q d) ! k = f p (f q d) ! k"
      using Cons.IH [OF dist in_qs] .
    also have "f p (f q d) ! k = f p d ! k"
    proof (rule own [OF assms(6)])
      show "length (f q d) = length d" by (rule len)
      show "\<forall>j. j div 4 = ix p \<longrightarrow> f q d ! j = d ! j"
        using ne by (auto intro!: other)
    qed
    finally show ?thesis by simp
  qed
qed


section \<open>Pixel indices\<close>

lemma pixel_index_bound:
  assumes "x < w" and "y < h"
  shows "y * w + x < w * (h::nat)"
proof -
  have "y * w + x < y * w + w" using assms by simp
  also have "\<dots> = Suc y * w" by simp
  also have "\<dots> \<le> h * w" using assms by (intro mult_le_mono1) simp
  finally show ?thesis by (simp add: mult.commute)
qed

lemma pixel_index_inj:
  assumes "x < w" and "x' < w" and "y * w + x = y' * w + (x'::nat)"
  shows "y = y' \<and> x = x'"
proof -
  have "(y * w + x) div w = y" "(y * w + x) mod w = x" using assms(1) by simp_all
  moreover have "(y' * w + x') div w = y'" "(y' * w + x') mod w = x'" using assms(2) by simp_all
  ultimately show ?thesis using assms(3) by metis
qed

lemma distinct_pixel_index:
  "distinct (map (\<lambda>(y, x). y * w + x) (List.product [0..<h] [0..<w]))"
proof -
  have "inj_on (\<lambda>(y, x). y * w + x) (set (List.product [0..<h] [0..<w]))"
  proof (rule inj_onI)
    fix p q :: "nat \<times> nat"
    assume p: "p \<in> set (List.product [0..<h] [0..<w])"
      and q: "q \<in> set (List.product [0..<h] [0..<w])"
      and eq: "(case p of (y, x) \<Rightarrow> y * w + x) = (case q of (y, x) \<Rightarrow> y * w + x)"
    obtain y x y' x' where pq: "p = (y, x)" "q = (y', x')" by (cases p, cases q) blast
    with p q eq have "x < w" "x' < w" "y * w + x = y' * w + x'" by simp_all
    then have "y = y' \<and> x = x'" by (rule pixel_index_inj)
    with pq show "p = q" by simp
  qed
  then show ?thesis by (simp add: distinct_map distinct_product)
qed

section \<open>ditherAndColorize, pixel by pixel\<close>

lemma nth_list_update_if:
  "xs[i := v] ! j = (if i = j \<and> i < length xs then v else xs ! j)"
  by (cases "i < length xs") (auto simp: list_update_beyond)

lemma ditherPixel_length: "length (ditherPixel w pal y x d) = length d"
  by (simp add: ditherPixel_def Let_def split: prod.splits)

lemma ditherPixel_other:
  assumes "k div 4 \<noteq> y * w + x"
  shows "ditherPixel w pal y x d ! k = d ! k"
proof -
  have "k \<noteq> (y * w + x) * 4" "k \<noteq> (y * w + x) * 4 + 1"
    "k \<noteq> (y * w + x) * 4 + 2" "k \<noteq> (y * w + x) * 4 + 3"
    using assms by auto
  then show ?thesis
    by (simp add: ditherPixel_def Let_def split: prod.splits)
qed

lemma ditherPixel_own:
  assumes "length d' = length d" and "\<forall>j. j div 4 = y * w + x \<longrightarrow> d' ! j = d ! j"
    and own: "k div 4 = y * w + x"
  shows "ditherPixel w pal y x d' ! k = ditherPixel w pal y x d ! k"
proof -
  have r: "d' ! ((y * w + x) * 4) = d ! ((y * w + x) * 4)"
    using assms(2) by simp
  have "d' ! k = d ! k" if "k div 4 = y * w + x"
    using assms(2) that by simp
  moreover have "k = (y * w + x) * 4 \<or> k = (y * w + x) * 4 + 1 \<or> k = (y * w + x) * 4 + 2
      \<or> k = (y * w + x) * 4 + 3" if "k div 4 = y * w + x"
    using that by presburger
  ultimately show ?thesis
    using assms(1) r own
    by (auto simp: ditherPixel_def Let_def nth_list_update_if split: prod.splits)
qed

lemma dither_loops_nth:
  assumes "x < w" and "y < h" and "k div 4 = y * w + x"
  shows "fold (\<lambda>y. fold (\<lambda>x. ditherPixel w pal y x) [0..<w]) [0..<h] d ! k
         = ditherPixel w pal y x d ! k"
proof -
  let ?f = "\<lambda>(y, x). ditherPixel w pal y x"
  let ?ix = "\<lambda>(y, x). y * w + x"
  have "fold ?f (List.product [0..<h] [0..<w]) d ! k = ?f (y, x) d ! k"
  proof (rule fold_pixel_own [where ix = ?ix])
    show "distinct (map ?ix (List.product [0..<h] [0..<w]))" by (rule distinct_pixel_index)
    show "(y, x) \<in> set (List.product [0..<h] [0..<w])" using assms by simp
    show "k div 4 = ?ix (y, x)" using assms by simp
  qed (auto simp: ditherPixel_length ditherPixel_other intro: ditherPixel_own)
  then show ?thesis by (simp add: fold_nested_product)
qed

lemma dither_loops_length:
  "length (fold (\<lambda>y. fold (\<lambda>x. ditherPixel w pal y x) [0..<w]) [0..<h] d) = length d"
  by (simp add: fold_nested_product fold_length_preserved ditherPixel_length split_beta)


lemma red_pixelAt: "fst (pixelAt img i j) = data img ! ((j * width img + i) * 4)"
  by (simp add: pixelAt_def Let_def)

lemma alpha_pixelAt:
  "snd (snd (snd (pixelAt img i j))) = data img ! ((j * width img + i) * 4 + 3)"
  by (simp add: pixelAt_def Let_def)

lemma pixelAt_eqI:
  assumes "data img ! ((y * width img + x) * 4) = r"
    and "data img ! ((y * width img + x) * 4 + 1) = g"
    and "data img ! ((y * width img + x) * 4 + 2) = b"
    and "data img ! ((y * width img + x) * 4 + 3) = a"
  shows "pixelAt img x y = (r, g, b, a)"
  using assms by (simp add: pixelAt_def Let_def)

lemma pixel_channel_in_range:
  assumes "wf_image img" and "x < width img" and "y < height img"
  shows "(y * width img + x) * 4 + 3 < length (data img)"
proof -
  have "y * width img + x < width img * height img"
    using assms(2,3) by (rule pixel_index_bound)
  then show ?thesis using assms(1) by (simp add: wf_image_def)
qed

lemma ditherPixel_at:
  assumes "(y * w + x) * 4 + 3 < length d"
  shows "ditherPixel w pal y x d ! ((y * w + x) * 4) =
           fst (pal ! shadeOf (num (d ! ((y * w + x) * 4)) / 255
                  + (BAYER_4x4 ! (y mod 4) ! (x mod 4) - 0.5) * 0.33))"
    and "ditherPixel w pal y x d ! ((y * w + x) * 4 + 1) =
           fst (snd (pal ! shadeOf (num (d ! ((y * w + x) * 4)) / 255
                  + (BAYER_4x4 ! (y mod 4) ! (x mod 4) - 0.5) * 0.33)))"
    and "ditherPixel w pal y x d ! ((y * w + x) * 4 + 2) =
           snd (snd (pal ! shadeOf (num (d ! ((y * w + x) * 4)) / 255
                  + (BAYER_4x4 ! (y mod 4) ! (x mod 4) - 0.5) * 0.33)))"
    and "ditherPixel w pal y x d ! ((y * w + x) * 4 + 3) = 255"
  using assms by (simp_all add: ditherPixel_def Let_def split: prod.splits)

lemma dither_pixelAt:
  assumes "wf_image img" and "x < width img" and "y < height img"
  shows "pixelAt (ditherAndColorize img pal) x y =
           (case pal ! shadeOf (num (data img ! ((y * width img + x) * 4)) / 255
                      + (BAYER_4x4 ! (y mod 4) ! (x mod 4) - 0.5) * 0.33)
            of (r, g, b) \<Rightarrow> (r, g, b, 255))"
proof -
  let ?w = "width img" and ?d = "data img"
  let ?idx = "(y * ?w + x) * 4"
  let ?out = "fold (\<lambda>y. fold (\<lambda>x. ditherPixel ?w pal y x) [0..<?w]) [0..<height img] ?d"
  have rng: "?idx + 3 < length ?d" using assms by (rule pixel_channel_in_range)
  have nth: "?out ! (?idx + c) = ditherPixel ?w pal y x ?d ! (?idx + c)" if "c < 4" for c
    using assms(2,3) that by (intro dither_loops_nth) simp_all
  have "?out ! ?idx = ditherPixel ?w pal y x ?d ! ?idx" using nth [of 0] by simp
  moreover note nth [of 1] nth [of 2] nth [of 3]
  ultimately show ?thesis
    using ditherPixel_at [OF rng, of pal]
    by (simp add: pixelAt_def ditherAndColorize_def split: prod.splits)
qed

section \<open>The threshold matrix and the levels\<close>

lemma BAYER_4x4_entries:
  "BAYER_4x4 = map (map (\<lambda>n. real n / 16))
     [[0, 8, 2, 10], [12, 4, 14, 6], [3, 11, 1, 9], [15, 7, 13, 5]]"
  by (simp add: BAYER_4x4_def)

lemma BAYER_4x4_distinct: "distinct (concat BAYER_4x4)"
  by (simp add: BAYER_4x4_def)

lemma BAYER_4x4_set: "set (concat BAYER_4x4) = (\<lambda>n. real n / 16) ` {0..<16}"
proof -
  have e: "[0..<16::nat] = [0, 1, 2, 3, 4, 5, 6, 7, 8, 9, 10, 11, 12, 13, 14, 15]"
    by code_simp
  have "{0..<16::nat} = set [0..<16]" by simp
  then have "{0..<16::nat} = set [0, 1, 2, 3, 4, 5, 6, 7, 8, 9, 10, 11, 12, 13, 14, 15]"
    unfolding e .
  then show ?thesis by (auto simp: BAYER_4x4_def)
qed


lemma BAYER_4x4_classic:
  "BAYER_4x4 = map (\<lambda>i. map (\<lambda>j. real (classicBayer4 i j) / 16) [0..<4]) [0..<4]"
proof -
  have "[0..<4] = [0, 1, 2, 3::nat]" by code_simp
  then show ?thesis
    by (simp add: BAYER_4x4_def classicBayer4_def bayer2_def)
qed

lemma shadeOf_unclamped:
  "(\<forall>d. d < 0 \<longrightarrow> shadeOf d = 0) \<and> (\<forall>d. 1 < d \<longrightarrow> shadeOf d = 3)"
  by (simp add: shadeOf_def)

text \<open>
  Claim C1. For a well-formed image and a four-colour palette, the pixel that
  \<^verbatim>\<open>ditherAndColorize\<close> leaves at \<open>(x, y)\<close> is the palette entry of the level that
  the breakpoints 0.25, 0.5, 0.75 assign to
  \<open>dithered = v / 255 + (BAYER_4x4[y mod 4][x mod 4] - 0.5) * 0.33\<close>, with alpha 255,
  where \<open>v\<close> is the red channel of the input pixel. The matrix holds the sixteen
  distinct values \<open>n / 16\<close> in the classic Bayer arrangement, and nothing clamps
  \<open>dithered\<close>: below 0 the level is 0, above 1 it is 3.
\<close>

theorem dither_formula:
  assumes "wf_image img" and "length pal = 4" and "x < width img" and "y < height img"
  shows "pixelAt (ditherAndColorize img pal) x y =
           (let v = num (fst (pixelAt img x y));
                dithered = v / 255 + (BAYER_4x4 ! (y mod 4) ! (x mod 4) - 0.5) * 0.33;
                level = (if dithered < 0.25 then 0
                         else if dithered < 0.5 then 1
                         else if dithered < 0.75 then 2
                         else (3::nat));
                (r, g, b) = pal ! level
            in (r, g, b, 255))
         \<and> BAYER_4x4 = map (map (\<lambda>n. real n / 16))
               [[0, 8, 2, 10], [12, 4, 14, 6], [3, 11, 1, 9], [15, 7, 13, 5]]
         \<and> BAYER_4x4 = map (\<lambda>i. map (\<lambda>j. real (classicBayer4 i j) / 16) [0..<4]) [0..<4]
         \<and> distinct (concat BAYER_4x4)
         \<and> set (concat BAYER_4x4) = (\<lambda>n. real n / 16) ` {0..<16}
         \<and> (\<forall>d. d < 0 \<longrightarrow> shadeOf d = 0) \<and> (\<forall>d. 1 < d \<longrightarrow> shadeOf d = 3)"
proof -
  have "pixelAt (ditherAndColorize img pal) x y =
           (let v = num (fst (pixelAt img x y));
                dithered = v / 255 + (BAYER_4x4 ! (y mod 4) ! (x mod 4) - 0.5) * 0.33;
                level = (if dithered < 0.25 then 0
                         else if dithered < 0.5 then 1
                         else if dithered < 0.75 then 2
                         else (3::nat));
                (r, g, b) = pal ! level
            in (r, g, b, 255))"
    unfolding dither_pixelAt [OF assms(1,3,4)] red_pixelAt Let_def shadeOf_def ..
  then show ?thesis
    using BAYER_4x4_entries BAYER_4x4_classic BAYER_4x4_distinct BAYER_4x4_set
      shadeOf_unclamped
    by blast
qed

theorem dither_formula_witness:
  "wf_image \<lparr>width = 2, height = 1, data = [200, 1, 2, 3, 10, 20, 30, 40]\<rparr>
   \<and> length [(15, 56, 15), (48, 98, 48), (139, 172, 15), (155, 188, 15) :: rgb] = 4
   \<and> pixelAt (ditherAndColorize \<lparr>width = 2, height = 1, data = [200, 1, 2, 3, 10, 20, 30, 40]\<rparr>
        [(15, 56, 15), (48, 98, 48), (139, 172, 15), (155, 188, 15)]) 1 0 = (15, 56, 15, 255)
   \<and> pixelAt (ditherAndColorize \<lparr>width = 2, height = 1, data = [200, 1, 2, 3, 10, 20, 30, 40]\<rparr>
        [(15, 56, 15), (48, 98, 48), (139, 172, 15), (155, 188, 15)]) 0 0 = (139, 172, 15, 255)"
proof -
  let ?img = "\<lparr>width = 2, height = 1, data = [200, 1, 2, 3, 10, 20, 30, 40]\<rparr>"
  let ?pal = "[(15, 56, 15), (48, 98, 48), (139, 172, 15), (155, 188, 15) :: rgb]"
  have wf: "wf_image ?img" by (simp add: wf_image_def)
  have len: "length ?pal = 4" by simp
  have a: "pixelAt (ditherAndColorize ?img ?pal) 1 0 = (15, 56, 15, 255)"
    using dither_formula [OF wf len, of 1 0, THEN conjunct1]
    by (simp add: pixelAt_def num_def BAYER_4x4_def)
  have b: "pixelAt (ditherAndColorize ?img ?pal) 0 0 = (139, 172, 15, 255)"
    using dither_formula [OF wf len, of 0 0, THEN conjunct1]
    by (simp add: pixelAt_def num_def BAYER_4x4_def)
  from wf len a b show ?thesis by blast
qed

lemma less_4_cases:
  assumes "i < (4::nat)"
  shows "i = 0 \<or> i = 1 \<or> i = 2 \<or> i = 3"
  using assms by arith

lemma margin_int:
  fixes n B q :: int
  assumes "0 \<le> B" and "B \<le> 15" and "1 \<le> q" and "q \<le> 3"
  shows "320 * n + 1683 * (B - 8) - 20400 * q \<noteq> 0"
proof
  assume z: "320 * n + 1683 * (B - 8) - 20400 * q = 0"
  define M where "M = 11 * (1275 * q - 20 * n - 105 * (B - 8)) - 2 * (B - 8)"
  have "B - 8 = 16 * M" using z by (simp add: M_def algebra_simps)
  moreover from this assms(1,2) have "M = 0" by arith
  ultimately have B: "B = 8" by simp
  define M' where "M' = 64 * q - n"
  from z B have "q = 4 * M'" by (simp add: M'_def algebra_simps)
  with assms(3,4) show False by arith
qed

lemma BAYER_4x4_nth:
  assumes "i < 4" and "j < 4"
  shows "BAYER_4x4 ! i ! j = real (classicBayer4 i j) / 16 \<and> classicBayer4 i j \<le> 15"
  using less_4_cases [OF assms(1)] less_4_cases [OF assms(2)]
  by (elim disjE) (simp_all add: BAYER_4x4_def classicBayer4_def bayer2_def)

text \<open>
  For a byte \<open>v\<close>, the exact value of \<open>dithered\<close> stays at least 1/81600 away from each
  of the three breakpoints. The sum that the program computes in double precision
  differs from the exact one by far less, so the levels of the model are the levels of
  the program.
\<close>

lemma dither_margin:
  assumes "i < 4" and "j < 4" and "1 \<le> q" and "q \<le> (3::int)"
  shows "1 / 81600 \<le> \<bar>num v / 255 + (BAYER_4x4 ! i ! j - 0.5) * 0.33 - of_int q / 4\<bar>"
proof -
  define n where "n = int (unat v)"
  define B where "B = int (classicBayer4 i j)"
  define N where "N = 320 * n + 1683 * (B - 8) - 20400 * q"
  have B: "0 \<le> B" "B \<le> 15" and e: "BAYER_4x4 ! i ! j = of_int B / 16"
    using BAYER_4x4_nth [OF assms(1,2)] by (simp_all add: B_def)
  have nv: "num v = of_int n" by (simp add: num_def n_def del: of_nat_unat)
  have "N \<noteq> 0" unfolding N_def using B assms(3,4) by (rule margin_int)
  then have "1 \<le> \<bar>N\<bar>" by simp
  then have "1 \<le> \<bar>real_of_int N\<bar>" by (metis of_int_1_le_iff of_int_abs)
  then have "1 / 81600 \<le> \<bar>real_of_int N\<bar> / 81600" by simp
  also have "\<dots> = \<bar>real_of_int N / 81600\<bar>" by simp
  also have "real_of_int N / 81600 = num v / 255 + (BAYER_4x4 ! i ! j - 0.5) * 0.33 - of_int q / 4"
    unfolding nv e N_def by (simp add: field_simps)
  finally show ?thesis .
qed

section \<open>The tone stage, pixel by pixel\<close>

lemma pixelStarts_wf:
  assumes "wf_image img"
  shows "pixelStarts (length (data img)) = map (\<lambda>k. 4 * k) [0..<width img * height img]"
  using assms by (simp add: pixelStarts_def wf_image_def)

lemma four_cases:
  assumes "k div 4 = (p::nat)"
  shows "k = 4 * p \<or> k = 4 * p + 1 \<or> k = 4 * p + 2 \<or> k = 4 * p + 3"
  using assms by presburger

lemma contrastStep_length: "length (contrastStep factor i d) = length d"
  by (simp add: contrastStep_def Let_def)

lemma contrastStep_other:
  assumes "k div 4 \<noteq> p"
  shows "contrastStep factor (4 * p) d ! k = d ! k"
proof -
  have "k \<noteq> 4 * p" "k \<noteq> 4 * p + 1" "k \<noteq> 4 * p + 2" using assms by auto
  then show ?thesis by (simp add: contrastStep_def Let_def)
qed

lemma contrastStep_own:
  assumes "length d' = length d" and "\<forall>j. j div 4 = p \<longrightarrow> d' ! j = d ! j"
    and "k div 4 = p"
  shows "contrastStep factor (4 * p) d' ! k = contrastStep factor (4 * p) d ! k"
proof -
  have "d' ! (4 * p) = d ! (4 * p)" "d' ! k = d ! k"
    using assms(2,3) by simp_all
  then show ?thesis
    using assms(1) four_cases [OF assms(3)]
    by (auto simp: contrastStep_def Let_def nth_list_update_if)
qed

lemma contrast_loop_nth:
  assumes "p < m" and "k div 4 = p"
  shows "fold (contrastStep factor) (map (\<lambda>k. 4 * k) [0..<m]) d ! k
         = contrastStep factor (4 * p) d ! k"
proof -
  let ?f = "\<lambda>q. contrastStep factor (4 * q)"
  have "fold ?f [0..<m] d ! k = ?f p d ! k"
  proof (rule fold_pixel_own [where ix = "\<lambda>q. q"])
    show "distinct (map (\<lambda>q. q) [0..<m])" by simp
    show "p \<in> set [0..<m]" using assms by simp
    show "k div 4 = p" by (rule assms)
  qed (auto simp: contrastStep_length contrastStep_other intro: contrastStep_own)
  then show ?thesis by (simp add: fold_map comp_def)
qed

lemma contrast_loop_length:
  "length (fold (contrastStep factor) ps d) = length d"
  by (rule fold_length_preserved) (rule contrastStep_length)

lemma grayscaleStep_length: "length (grayscaleStep i d) = length d"
  by (simp add: grayscaleStep_def Let_def)

lemma grayscaleStep_other:
  assumes "k div 4 \<noteq> p"
  shows "grayscaleStep (4 * p) d ! k = d ! k"
proof -
  have "k \<noteq> 4 * p" "k \<noteq> 4 * p + 1" "k \<noteq> 4 * p + 2" using assms by auto
  then show ?thesis by (simp add: grayscaleStep_def Let_def)
qed

lemma grayscaleStep_own:
  assumes "length d' = length d" and "\<forall>j. j div 4 = p \<longrightarrow> d' ! j = d ! j"
    and "k div 4 = p"
  shows "grayscaleStep (4 * p) d' ! k = grayscaleStep (4 * p) d ! k"
proof -
  have "d' ! (4 * p) = d ! (4 * p)" "d' ! (4 * p + 1) = d ! (4 * p + 1)"
    "d' ! (4 * p + 2) = d ! (4 * p + 2)" "d' ! k = d ! k"
    using assms(2,3) by simp_all
  then show ?thesis
    using assms(1) four_cases [OF assms(3)]
    by (auto simp: grayscaleStep_def Let_def nth_list_update_if)
qed

lemma grayscale_loop_nth:
  assumes "p < m" and "k div 4 = p"
  shows "fold grayscaleStep (map (\<lambda>k. 4 * k) [0..<m]) d ! k = grayscaleStep (4 * p) d ! k"
proof -
  let ?f = "\<lambda>q. grayscaleStep (4 * q)"
  have "fold ?f [0..<m] d ! k = ?f p d ! k"
  proof (rule fold_pixel_own [where ix = "\<lambda>q. q"])
    show "distinct (map (\<lambda>q. q) [0..<m])" by simp
    show "p \<in> set [0..<m]" using assms by simp
    show "k div 4 = p" by (rule assms)
  qed (auto simp: grayscaleStep_length grayscaleStep_other intro: grayscaleStep_own)
  then show ?thesis by (simp add: fold_map comp_def)
qed

lemma grayscale_loop_length: "length (fold grayscaleStep ps d) = length d"
  by (rule fold_length_preserved) (rule grayscaleStep_length)

lemma toGrayscale_wf [simp]:
  "width (toGrayscale img) = width img" "height (toGrayscale img) = height img"
  "length (data (toGrayscale img)) = length (data img)"
  by (simp_all add: toGrayscale_def grayscale_loop_length)

lemma applyContrast_wf [simp]:
  "width (applyContrast img f) = width img" "height (applyContrast img f) = height img"
  "length (data (applyContrast img f)) = length (data img)"
  by (simp_all add: applyContrast_def contrast_loop_length)

lemma ditherAndColorize_wf [simp]:
  "width (ditherAndColorize img pal) = width img"
  "height (ditherAndColorize img pal) = height img"
  "length (data (ditherAndColorize img pal)) = length (data img)"
  by (simp_all add: ditherAndColorize_def dither_loops_length)


section \<open>edgeEnhance, pixel by pixel\<close>

lemma distinct_pixel_index_gen:
  assumes "distinct ys" and "distinct xs" and "\<forall>x\<in>set xs. x < (w::nat)"
  shows "distinct (map (\<lambda>(y, x). y * w + x) (List.product ys xs))"
proof -
  have "inj_on (\<lambda>(y, x). y * w + x) (set (List.product ys xs))"
  proof (rule inj_onI)
    fix p q :: "nat \<times> nat"
    assume p: "p \<in> set (List.product ys xs)"
      and q: "q \<in> set (List.product ys xs)"
      and eq: "(case p of (y, x) \<Rightarrow> y * w + x) = (case q of (y, x) \<Rightarrow> y * w + x)"
    obtain y x y' x' where pq: "p = (y, x)" "q = (y', x')" by (cases p, cases q) blast
    with p q eq assms(3) have "x < w" "x' < w" "y * w + x = y' * w + x'" by simp_all
    then have "y = y' \<and> x = x'" by (rule pixel_index_inj)
    with pq show "p = q" by simp
  qed
  then show ?thesis using assms(1,2) by (simp add: distinct_map distinct_product)
qed

lemma nbr_index:
  assumes "0 \<le> int y + ky" and "0 \<le> int x + kx"
  shows "nat (((int y + ky) * int w + (int x + kx)) * 4)
         = (nat (int y + ky) * w + nat (int x + kx)) * 4"
proof -
  have "int ((nat (int y + ky) * w + nat (int x + kx)) * 4)
        = ((int y + ky) * int w + (int x + kx)) * 4"
    using assms by simp
  then show ?thesis by (metis nat_int)
qed

lemma kernelSum_interior:
  assumes "1 \<le> y" and "1 \<le> x"
  shows "kernelSum ops w d y x =
           foldl (addN ops) (ofLiteral ops 0)
             [mulN ops (ofByte ops (d ! (((y - 1) * w + (x - 1)) * 4))) (ofLiteral ops 0),
              mulN ops (ofByte ops (d ! (((y - 1) * w + x) * 4))) (ofLiteral ops (- 1)),
              mulN ops (ofByte ops (d ! (((y - 1) * w + (x + 1)) * 4))) (ofLiteral ops 0),
              mulN ops (ofByte ops (d ! ((y * w + (x - 1)) * 4))) (ofLiteral ops (- 1)),
              mulN ops (ofByte ops (d ! ((y * w + x) * 4))) (ofLiteral ops 5),
              mulN ops (ofByte ops (d ! ((y * w + (x + 1)) * 4))) (ofLiteral ops (- 1)),
              mulN ops (ofByte ops (d ! (((y + 1) * w + (x - 1)) * 4))) (ofLiteral ops 0),
              mulN ops (ofByte ops (d ! (((y + 1) * w + x) * 4))) (ofLiteral ops (- 1)),
              mulN ops (ofByte ops (d ! (((y + 1) * w + (x + 1)) * 4))) (ofLiteral ops 0)]"
proof -
  have y: "nat (int y + - 1) = y - 1" "nat (int y + 0) = y" "nat (int y + 1) = y + 1"
    and x: "nat (int x + - 1) = x - 1" "nat (int x + 0) = x" "nat (int x + 1) = x + 1"
    using assms by simp_all
  have nn: "0 \<le> int y + - 1" "0 \<le> int y + 0" "0 \<le> int y + 1"
    "0 \<le> int x + - 1" "0 \<le> int x + 0" "0 \<le> int x + 1"
    using assms by simp_all
  have "kernelSum ops w d y x =
      foldl (addN ops) (ofLiteral ops 0)
        [mulN ops (ofByte ops (d ! nat (((int y + - 1) * int w + (int x + - 1)) * 4))) (ofLiteral ops 0),
         mulN ops (ofByte ops (d ! nat (((int y + - 1) * int w + (int x + 0)) * 4))) (ofLiteral ops (- 1)),
         mulN ops (ofByte ops (d ! nat (((int y + - 1) * int w + (int x + 1)) * 4))) (ofLiteral ops 0),
         mulN ops (ofByte ops (d ! nat (((int y + 0) * int w + (int x + - 1)) * 4))) (ofLiteral ops (- 1)),
         mulN ops (ofByte ops (d ! nat (((int y + 0) * int w + (int x + 0)) * 4))) (ofLiteral ops 5),
         mulN ops (ofByte ops (d ! nat (((int y + 0) * int w + (int x + 1)) * 4))) (ofLiteral ops (- 1)),
         mulN ops (ofByte ops (d ! nat (((int y + 1) * int w + (int x + - 1)) * 4))) (ofLiteral ops 0),
         mulN ops (ofByte ops (d ! nat (((int y + 1) * int w + (int x + 0)) * 4))) (ofLiteral ops (- 1)),
         mulN ops (ofByte ops (d ! nat (((int y + 1) * int w + (int x + 1)) * 4))) (ofLiteral ops 0)]"
    unfolding kernelSum_def EDGE_KERNEL_def Let_def by simp
  then show ?thesis
    unfolding nbr_index [OF nn(1) nn(4)] nbr_index [OF nn(1) nn(5)] nbr_index [OF nn(1) nn(6)]
      nbr_index [OF nn(2) nn(4)] nbr_index [OF nn(2) nn(5)] nbr_index [OF nn(2) nn(6)]
      nbr_index [OF nn(3) nn(4)] nbr_index [OF nn(3) nn(5)] nbr_index [OF nn(3) nn(6)]
      y x .
qed

lemma edgePixel_length: "length (edgePixel ops w s orig y x d) = length d"
  by (simp add: edgePixel_def Let_def)

lemma edgePixel_other:
  assumes "k div 4 \<noteq> y * w + x"
  shows "edgePixel ops w s orig y x d ! k = d ! k"
proof -
  have "k \<noteq> (y * w + x) * 4" "k \<noteq> (y * w + x) * 4 + 1" "k \<noteq> (y * w + x) * 4 + 2"
    using assms by auto
  then show ?thesis by (simp add: edgePixel_def Let_def)
qed

lemma edgePixel_own:
  assumes "length d' = length d" and "\<forall>j. j div 4 = y * w + x \<longrightarrow> d' ! j = d ! j"
    and "k div 4 = y * w + x"
  shows "edgePixel ops w s orig y x d' ! k = edgePixel ops w s orig y x d ! k"
proof -
  have "d' ! k = d ! k" using assms(2,3) by simp
  then show ?thesis
    using assms(1) by (auto simp: edgePixel_def Let_def nth_list_update_if)
qed

lemma edge_loops_length:
  "length (fold (\<lambda>y. fold (\<lambda>x. edgePixel ops w s orig y x) xs) ys d) = length d"
  by (simp add: fold_nested_product fold_length_preserved edgePixel_length split_beta)

lemma edge_loops_interior:
  assumes "1 \<le> x" and "x < w - 1" and "1 \<le> y" and "y < h - 1" and "k div 4 = y * w + x"
  shows "fold (\<lambda>y. fold (\<lambda>x. edgePixel ops w s orig y x) [1..<w - 1]) [1..<h - 1] d ! k
         = edgePixel ops w s orig y x d ! k"
proof -
  let ?f = "\<lambda>(y, x). edgePixel ops w s orig y x"
  let ?ix = "\<lambda>(y, x). y * w + x"
  let ?ps = "List.product [1..<h - 1] [1..<w - 1]"
  have "fold ?f ?ps d ! k = ?f (y, x) d ! k"
  proof (rule fold_pixel_own [where ix = ?ix])
    show "distinct (map ?ix ?ps)" by (rule distinct_pixel_index_gen) auto
    show "(y, x) \<in> set ?ps" using assms by simp
    show "k div 4 = ?ix (y, x)" using assms by simp
  qed (auto simp: edgePixel_length edgePixel_other intro: edgePixel_own)
  then show ?thesis by (simp add: fold_nested_product)
qed

lemma edge_loops_border:
  assumes "x < w" and "x = 0 \<or> x = w - 1 \<or> y = 0 \<or> y = h - 1 \<or> h - 1 < y"
    and "k div 4 = y * w + x"
  shows "fold (\<lambda>y. fold (\<lambda>x. edgePixel ops w s orig y x) [1..<w - 1]) [1..<h - 1] d ! k
         = d ! k"
proof -
  let ?f = "\<lambda>(y, x). edgePixel ops w s orig y x"
  let ?ix = "\<lambda>(y, x). y * w + x"
  let ?ps = "List.product [1..<h - 1] [1..<w - 1]"
  have "k div 4 \<notin> ?ix ` set ?ps"
  proof
    assume "k div 4 \<in> ?ix ` set ?ps"
    then obtain y' x' where in_ps: "(y', x') \<in> set ?ps" and eq: "k div 4 = y' * w + x'"
      by auto
    from in_ps have x': "x' < w" by auto
    from eq assms(3) have "y * w + x = y' * w + x'" by simp
    with assms(1) x' have "y = y' \<and> x = x'" by (rule pixel_index_inj)
    with in_ps assms(2) show False by auto
  qed
  then have "fold ?f ?ps d ! k = d ! k"
    by (rule fold_pixel_other [where ix = ?ix, rotated]) (auto simp: edgePixel_other)
  then show ?thesis by (simp add: fold_nested_product)
qed

lemma edgeEnhance_wf [simp]:
  "width (edgeEnhance ops img s) = width img" "height (edgeEnhance ops img s) = height img"
  "length (data (edgeEnhance ops img s)) = length (data img)"
  by (simp_all add: edgeEnhance_def Let_def edge_loops_length)

lemma edgePixel_at:
  assumes "(y * w + x) * 4 + 3 < length d"
  shows "edgePixel ops w s orig y x d ! ((y * w + x) * 4) =
           toByte ops (mathMax ops (ofLiteral ops 0) (mathMin ops (ofLiteral ops 255)
             (addN ops (mulN ops (ofByte ops (orig ! ((y * w + x) * 4)))
                          (subN ops (ofLiteral ops 1) s))
                (mulN ops (kernelSum ops w orig y x) s))))"
    and "edgePixel ops w s orig y x d ! ((y * w + x) * 4 + 1) =
           toByte ops (mathMax ops (ofLiteral ops 0) (mathMin ops (ofLiteral ops 255)
             (addN ops (mulN ops (ofByte ops (orig ! ((y * w + x) * 4)))
                          (subN ops (ofLiteral ops 1) s))
                (mulN ops (kernelSum ops w orig y x) s))))"
    and "edgePixel ops w s orig y x d ! ((y * w + x) * 4 + 2) =
           toByte ops (mathMax ops (ofLiteral ops 0) (mathMin ops (ofLiteral ops 255)
             (addN ops (mulN ops (ofByte ops (orig ! ((y * w + x) * 4)))
                          (subN ops (ofLiteral ops 1) s))
                (mulN ops (kernelSum ops w orig y x) s))))"
    and "edgePixel ops w s orig y x d ! ((y * w + x) * 4 + 3) = d ! ((y * w + x) * 4 + 3)"
  using assms by (simp_all add: edgePixel_def Let_def)

text \<open>
  At exact arithmetic the sum of the loops is five times the centre minus the four
  orthogonal neighbours. (In doubles the sum is exact as well: its terms are integers
  of magnitude at most 5 * 255.)
\<close>

lemma kernel_sum_exactOps:
  "foldl (addN exactOps) (ofLiteral exactOps 0)
     [mulN exactOps nw (ofLiteral exactOps 0), mulN exactOps n (ofLiteral exactOps (- 1)),
      mulN exactOps ne (ofLiteral exactOps 0),
      mulN exactOps w (ofLiteral exactOps (- 1)), mulN exactOps c (ofLiteral exactOps 5),
      mulN exactOps e (ofLiteral exactOps (- 1)),
      mulN exactOps sw (ofLiteral exactOps 0), mulN exactOps s (ofLiteral exactOps (- 1)),
      mulN exactOps se (ofLiteral exactOps 0)]
   = 5 * c - n - s - w - e"
  by (simp add: exactOps_def)

text \<open>
  Claim C6. For every arithmetic of Numbers, that of IEEE doubles included,
  \<^verbatim>\<open>edgeEnhance\<close> leaves every border pixel as it is. An interior pixel gets, in its
  three colour channels, the byte that the store makes of
  \<open>max(0, min(255, original * (1 - strength) + S * strength))\<close>, computed in that
  arithmetic, where \<open>S\<close> adds up, from 0 and row by row, the nine pixels of the
  neighbourhood times their kernel entry (centre 5, orthogonal neighbours -1, corners
  0). Every pixel in the formula is read from the image as it was before the stage;
  alpha is kept. This holds for every strength.
\<close>

theorem edgeEnhance_border_interior:
  assumes "wf_image img" and "x < width img" and "y < height img"
  shows "pixelAt (edgeEnhance ops img strength) x y =
     (if x = 0 \<or> x = width img - 1 \<or> y = 0 \<or> y = height img - 1 then pixelAt img x y
      else let L = (\<lambda>i j. ofByte ops (fst (pixelAt img i j)));
               K = ofLiteral ops;
               S = foldl (addN ops) (K 0)
                     [mulN ops (L (x - 1) (y - 1)) (K 0), mulN ops (L x (y - 1)) (K (- 1)),
                      mulN ops (L (x + 1) (y - 1)) (K 0),
                      mulN ops (L (x - 1) y) (K (- 1)), mulN ops (L x y) (K 5),
                      mulN ops (L (x + 1) y) (K (- 1)),
                      mulN ops (L (x - 1) (y + 1)) (K 0), mulN ops (L x (y + 1)) (K (- 1)),
                      mulN ops (L (x + 1) (y + 1)) (K 0)];
               v = toByte ops (mathMax ops (K 0) (mathMin ops (K 255)
                     (addN ops (mulN ops (L x y) (subN ops (K 1) strength))
                        (mulN ops S strength))))
           in (v, v, v, snd (snd (snd (pixelAt img x y)))))"
proof -
  let ?w = "width img" and ?h = "height img" and ?d = "data img"
  let ?idx = "(y * ?w + x) * 4"
  let ?e = "edgeEnhance ops img strength"
  let ?out = "fold (\<lambda>y. fold (\<lambda>x. edgePixel ops ?w strength ?d y x) [1..<?w - 1])
                [1..<?h - 1] ?d"
  have out: "data ?e = ?out" and w: "width ?e = ?w"
    by (simp_all add: edgeEnhance_def Let_def)
  have rng: "?idx + 3 < length ?d" using assms by (rule pixel_channel_in_range)
  show ?thesis
  proof (cases "x = 0 \<or> x = ?w - 1 \<or> y = 0 \<or> y = ?h - 1")
    case True
    then have b: "x = 0 \<or> x = ?w - 1 \<or> y = 0 \<or> y = ?h - 1 \<or> ?h - 1 < y" by blast
    have same: "data ?e ! (?idx + c) = ?d ! (?idx + c)" if "c < 4" for c
      unfolding out using that by (intro edge_loops_border [OF assms(2) b]) simp
    have "pixelAt ?e x y = pixelAt img x y"
      using same [of 0] same [of 1] same [of 2] same [of 3]
      by (simp add: pixelAt_def w)
    with True show ?thesis by simp
  next
    case False
    then have int: "1 \<le> x" "x < ?w - 1" "1 \<le> y" "y < ?h - 1"
      using assms(2,3) by auto
    let ?L = "\<lambda>i j. ofByte ops (fst (pixelAt img i j))"
    let ?K = "ofLiteral ops"
    let ?S = "foldl (addN ops) (?K 0)
                     [mulN ops (?L (x - 1) (y - 1)) (?K 0), mulN ops (?L x (y - 1)) (?K (- 1)),
                      mulN ops (?L (x + 1) (y - 1)) (?K 0),
                      mulN ops (?L (x - 1) y) (?K (- 1)), mulN ops (?L x y) (?K 5),
                      mulN ops (?L (x + 1) y) (?K (- 1)),
                      mulN ops (?L (x - 1) (y + 1)) (?K 0), mulN ops (?L x (y + 1)) (?K (- 1)),
                      mulN ops (?L (x + 1) (y + 1)) (?K 0)]"
    let ?v = "toByte ops (mathMax ops (?K 0) (mathMin ops (?K 255)
                     (addN ops (mulN ops (?L x y) (subN ops (?K 1) strength))
                        (mulN ops ?S strength))))"
    have ks: "kernelSum ops ?w ?d y x = ?S"
      unfolding red_pixelAt by (rule kernelSum_interior [OF int(3) int(1)])
    have step: "data ?e ! (?idx + c) = edgePixel ops ?w strength ?d y x ?d ! (?idx + c)"
      if "c < 4" for c
      unfolding out using that by (intro edge_loops_interior [OF int]) simp
    note at = edgePixel_at [OF rng, of ops strength ?d, unfolded ks red_pixelAt [symmetric]]
    have "data ?e ! ?idx = ?v" using step [of 0] at(1) by simp
    moreover have "data ?e ! (?idx + 1) = ?v" using step [of 1] at(2) by simp
    moreover have "data ?e ! (?idx + 2) = ?v" using step [of 2] at(3) by simp
    moreover have "data ?e ! (?idx + 3) = snd (snd (snd (pixelAt img x y)))"
      using step [of 3] at(4) by (simp add: alpha_pixelAt)
    ultimately have "pixelAt ?e x y = (?v, ?v, ?v, snd (snd (snd (pixelAt img x y))))"
      unfolding w [symmetric] by (intro pixelAt_eqI) (simp_all add: w)
    with False show ?thesis by (simp only: Let_def if_False)
  qed
qed

theorem edgeEnhance_border_interior_witness:
  "wf_image \<lparr>width = 3, height = 3, data =
      [10, 10, 10, 255, 20, 20, 20, 255, 30, 30, 30, 255,
       40, 40, 40, 255, 100, 100, 100, 9, 60, 60, 60, 255,
       70, 70, 70, 255, 80, 80, 80, 255, 90, 90, 90, 255]\<rparr>
   \<and> pixelAt (edgeEnhance exactOps \<lparr>width = 3, height = 3, data =
      [10, 10, 10, 255, 20, 20, 20, 255, 30, 30, 30, 255,
       40, 40, 40, 255, 100, 100, 100, 9, 60, 60, 60, 255,
       70, 70, 70, 255, 80, 80, 80, 255, 90, 90, 90, 255]\<rparr> (1 / 2)) 1 1 = (200, 200, 200, 9)
   \<and> pixelAt (edgeEnhance exactOps \<lparr>width = 3, height = 3, data =
      [10, 10, 10, 255, 20, 20, 20, 255, 30, 30, 30, 255,
       40, 40, 40, 255, 100, 100, 100, 9, 60, 60, 60, 255,
       70, 70, 70, 255, 80, 80, 80, 255, 90, 90, 90, 255]\<rparr> (1 / 2)) 0 1 = (40, 40, 40, 255)"
proof -
  let ?img = "\<lparr>width = 3, height = 3, data =
      [10, 10, 10, 255, 20, 20, 20, 255, 30, 30, 30, 255,
       40, 40, 40, 255, 100, 100, 100, 9, 60, 60, 60, 255,
       70, 70, 70, 255, 80, 80, 80, 255, 90, 90, 90, 255 :: byte]\<rparr>"
  have wf: "wf_image ?img" by (simp add: wf_image_def)
  have a: "pixelAt (edgeEnhance exactOps ?img (1 / 2)) 1 1 = (200, 200, 200, 9)"
    using edgeEnhance_border_interior [OF wf, of 1 1 exactOps "1 / 2"]
    by (simp add: pixelAt_def num_def toUint8Clamp_def exactOps_def)
  have b: "pixelAt (edgeEnhance exactOps ?img (1 / 2)) 0 1 = (40, 40, 40, 255)"
    using edgeEnhance_border_interior [OF wf, of 0 1 exactOps "1 / 2"]
    by (simp add: pixelAt_def)
  from wf a b show ?thesis by blast
qed

section \<open>The colours of the output\<close>

lemma shadeOf_less_4: "shadeOf d < 4"
  by (simp add: shadeOf_def)

lemma dither_pixel_in_palette:
  assumes "wf_image img" and "length pal = 4" and "x < width img" and "y < height img"
  shows "case pixelAt (ditherAndColorize img pal) x y of
           (r, g, b, a) \<Rightarrow> (r, g, b) \<in> set pal \<and> a = 255"
proof -
  let ?l = "shadeOf (num (data img ! ((y * width img + x) * 4)) / 255
                      + (BAYER_4x4 ! (y mod 4) ! (x mod 4) - 0.5) * 0.33)"
  have mem: "pal ! ?l \<in> set pal" using assms(2) shadeOf_less_4 by (intro nth_mem) simp
  obtain r g b where rgb: "pal ! ?l = (r, g, b)" by (cases "pal ! ?l") auto
  from mem rgb have "(r, g, b) \<in> set pal" by simp
  then show ?thesis
    unfolding dither_pixelAt [OF assms(1,3,4)] rgb by simp
qed

lemma colors_length:
  assumes "map_of PALETTES key = Some p"
  shows "length (colors p) = 4"
  using assms by (auto simp: PALETTES_def split: if_splits)

lemma getPaletteRgb_length:
  assumes "getPaletteRgb key = Inr pal"
  shows "length pal = 4"
  using assms
  by (auto simp: getPaletteRgb_def PALETTES_get_def colors_length
           split: option.splits property.splits if_splits)

lemma processFrame_Inr:
  assumes "processFrame drawImage src key opts = Inr out"
  obtains pal gray where "getPaletteRgb key = Inr pal"
    and "out = ditherAndColorize gray pal"
    and "width gray = width (drawImage src GBC_WIDTH GBC_HEIGHT)"
    and "height gray = height (drawImage src GBC_WIDTH GBC_HEIGHT)"
    and "length (data gray) = length (data (drawImage src GBC_WIDTH GBC_HEIGHT))"
proof (cases "getPaletteRgb key")
  case (Inl e)
  with assms show ?thesis by (simp add: processFrame_def Let_def)
next
  case (Inr pal)
  let ?c = "case contrast opts of None \<Rightarrow> 1.2 | Some c \<Rightarrow> c"
  let ?e = "case edgeStrength opts of None \<Rightarrow> 0.3 | Some e \<Rightarrow> e"
  let ?g = "applyContrast (toGrayscale (downscale drawImage src GBC_WIDTH GBC_HEIGHT)) ?c"
  let ?gray = "if 0 < ?e then edgeEnhance exactOps ?g ?e else ?g"
  have "out = ditherAndColorize ?gray pal"
    using assms Inr by (simp add: processFrame_def Let_def)
  moreover have "width ?gray = width (drawImage src GBC_WIDTH GBC_HEIGHT)"
    "height ?gray = height (drawImage src GBC_WIDTH GBC_HEIGHT)"
    "length (data ?gray) = length (data (drawImage src GBC_WIDTH GBC_HEIGHT))"
    by (simp_all add: downscale_def)
  ultimately show ?thesis using Inr by (intro that)
qed

text \<open>
  Claim C3. After \<^verbatim>\<open>ditherAndColorize\<close> every pixel of a well-formed image has as its
  RGB triple one of the four entries of the palette, and alpha 255; so has every pixel
  of an image that \<^verbatim>\<open>processFrame\<close> returns, for the palette its key resolves to,
  when the canvas hands back a well-formed image.
\<close>

theorem dither_output_in_palette:
  "(wf_image img \<and> length pal = 4 \<and> x < width img \<and> y < height img \<longrightarrow>
      (case pixelAt (ditherAndColorize img pal) x y of
         (r, g, b, a) \<Rightarrow> (r, g, b) \<in> set pal \<and> a = 255))
   \<and> (processFrame drawImage src key opts = Inr out
        \<and> wf_image (drawImage src GBC_WIDTH GBC_HEIGHT)
        \<and> x' < width out \<and> y' < height out \<longrightarrow>
      (\<exists>pal'. getPaletteRgb key = Inr pal' \<and> length pal' = 4
         \<and> (case pixelAt out x' y' of (r, g, b, a) \<Rightarrow> (r, g, b) \<in> set pal' \<and> a = 255)))"
proof (intro conjI impI)
  assume "wf_image img \<and> length pal = 4 \<and> x < width img \<and> y < height img"
  then show "case pixelAt (ditherAndColorize img pal) x y of
         (r, g, b, a) \<Rightarrow> (r, g, b) \<in> set pal \<and> a = 255"
    by (intro dither_pixel_in_palette) simp_all
next
  assume a: "processFrame drawImage src key opts = Inr out
        \<and> wf_image (drawImage src GBC_WIDTH GBC_HEIGHT)
        \<and> x' < width out \<and> y' < height out"
  then have pf: "processFrame drawImage src key opts = Inr out" by simp
  from pf obtain pal' gray where pal': "getPaletteRgb key = Inr pal'"
    and out: "out = ditherAndColorize gray pal'"
    and dims: "width gray = width (drawImage src GBC_WIDTH GBC_HEIGHT)"
      "height gray = height (drawImage src GBC_WIDTH GBC_HEIGHT)"
      "length (data gray) = length (data (drawImage src GBC_WIDTH GBC_HEIGHT))"
    by (rule processFrame_Inr)
  have wf: "wf_image gray" using a dims by (simp add: wf_image_def)
  have len: "length pal' = 4" using pal' by (rule getPaletteRgb_length)
  have "x' < width gray" "y' < height gray" using a out by simp_all
  with wf len have "case pixelAt (ditherAndColorize gray pal') x' y' of
         (r, g, b, a) \<Rightarrow> (r, g, b) \<in> set pal' \<and> a = 255"
    by (intro dither_pixel_in_palette)
  then have px: "case pixelAt out x' y' of
         (r, g, b, a) \<Rightarrow> (r, g, b) \<in> set pal' \<and> a = 255"
    by (simp only: out)
  show "\<exists>pal'. getPaletteRgb key = Inr pal' \<and> length pal' = 4
         \<and> (case pixelAt out x' y' of (r, g, b, a) \<Rightarrow> (r, g, b) \<in> set pal' \<and> a = 255)"
    by (rule exI [of _ pal']) (intro conjI pal' len px)
qed

lemma processFrame_registered:
  assumes "getPaletteRgb key = Inr pal"
  shows "\<exists>out. processFrame drawImage src key opts = Inr out"
  using assms by (simp add: processFrame_def Let_def)

lemma hexToRgb_classic:
  "hexToRgb ''#0f380f'' = (15, 56, 15)" "hexToRgb ''#306230'' = (48, 98, 48)"
  "hexToRgb ''#8bac0f'' = (139, 172, 15)" "hexToRgb ''#9bbc0f'' = (155, 188, 15)"
  by (simp_all add: hexToRgb_def parseInt16_def hexDigit_def toInt32_def)

lemma getPaletteRgb_classic:
  "getPaletteRgb ''classic'' = Inr [(15, 56, 15), (48, 98, 48), (139, 172, 15), (155, 188, 15)]"
  by (simp add: getPaletteRgb_def PALETTES_get_def PALETTES_def hexToRgb_classic)

theorem dither_output_in_palette_witness:
  "(case pixelAt (ditherAndColorize \<lparr>width = 2, height = 1, data = [200, 1, 2, 3, 10, 20, 30, 40]\<rparr>
             [(15, 56, 15), (48, 98, 48), (139, 172, 15), (155, 188, 15)]) 0 0 of
      (r, g, b, a) \<Rightarrow>
        (r, g, b) \<in> set [(15, 56, 15), (48, 98, 48), (139, 172, 15), (155, 188, 15)] \<and> a = 255)
   \<and> (\<exists>out pal'.
         processFrame (\<lambda>s w h. \<lparr>width = w, height = h, data = replicate (w * h * 4) 0\<rparr>)
           \<lparr>width = 1, height = 1, data = [1, 2, 3, 4]\<rparr> ''classic''
           \<lparr>contrast = None, edgeStrength = None\<rparr> = Inr out
         \<and> getPaletteRgb ''classic'' = Inr pal'
         \<and> (case pixelAt out 5 7 of (r, g, b, a) \<Rightarrow> (r, g, b) \<in> set pal' \<and> a = 255))"
proof -
  let ?img = "\<lparr>width = 2, height = 1, data = [200, 1, 2, 3, 10, 20, 30, 40 :: byte]\<rparr>"
  let ?pal = "[(15, 56, 15), (48, 98, 48), (139, 172, 15), (155, 188, 15) :: rgb]"
  let ?dI = "\<lambda>(s::ImageData) w h. \<lparr>width = w, height = h, data = replicate (w * h * 4) (0::byte)\<rparr>"
  let ?src = "\<lparr>width = 1, height = 1, data = [1, 2, 3, 4 :: byte]\<rparr>"
  let ?opts = "\<lparr>contrast = None, edgeStrength = None\<rparr>"
  have "wf_image ?img \<and> length ?pal = 4 \<and> 0 < width ?img \<and> 0 < height ?img"
    by (simp add: wf_image_def)
  then have one: "case pixelAt (ditherAndColorize ?img ?pal) 0 0 of
      (r, g, b, a) \<Rightarrow> (r, g, b) \<in> set ?pal \<and> a = 255"
    by (rule dither_output_in_palette [of ?img ?pal 0 0, THEN conjunct1, THEN mp])
  obtain out where out: "processFrame ?dI ?src ''classic'' ?opts = Inr out"
    using processFrame_registered [OF getPaletteRgb_classic, of ?dI ?src ?opts] ..
  have wf: "wf_image (?dI ?src GBC_WIDTH GBC_HEIGHT)"
    by (simp add: wf_image_def GBC_WIDTH_def GBC_HEIGHT_def)
  from out obtain gray pal where "out = ditherAndColorize gray pal"
    and "width gray = width (?dI ?src GBC_WIDTH GBC_HEIGHT)"
    and "height gray = height (?dI ?src GBC_WIDTH GBC_HEIGHT)"
    by (rule processFrame_Inr)
  then have dims: "5 < width out" "7 < height out"
    by (simp_all add: GBC_WIDTH_def GBC_HEIGHT_def)
  have "processFrame ?dI ?src ''classic'' ?opts = Inr out
        \<and> wf_image (?dI ?src GBC_WIDTH GBC_HEIGHT) \<and> 5 < width out \<and> 7 < height out"
    using out wf dims by (intro conjI)
  then have "\<exists>pal'. getPaletteRgb ''classic'' = Inr pal' \<and> length pal' = 4
         \<and> (case pixelAt out 5 7 of (r, g, b, a) \<Rightarrow> (r, g, b) \<in> set pal' \<and> a = 255)"
    by (rule dither_output_in_palette [of _ _ _ _ ?dI ?src "''classic''" ?opts out 5 7,
          THEN conjunct2, THEN mp])
  then obtain pal' where h: "getPaletteRgb ''classic'' = Inr pal' \<and> length pal' = 4
         \<and> (case pixelAt out 5 7 of (r, g, b, a) \<Rightarrow> (r, g, b) \<in> set pal' \<and> a = 255)" ..
  have two: "\<exists>out pal'. processFrame ?dI ?src ''classic'' ?opts = Inr out
         \<and> getPaletteRgb ''classic'' = Inr pal'
         \<and> (case pixelAt out 5 7 of (r, g, b, a) \<Rightarrow> (r, g, b) \<in> set pal' \<and> a = 255)"
    by (rule exI [of _ out], rule exI [of _ pal'])
       (intro conjI out h [THEN conjunct1] h [THEN conjunct2, THEN conjunct2])
  from one two show ?thesis by (rule conjI)
qed

section \<open>The channels that ditherAndColorize reads\<close>

lemma ditherPixel_cong:
  assumes rng: "(y * w + x) * 4 + 3 < length d" and len: "length d' = length d"
    and red: "d' ! ((y * w + x) * 4) = d ! ((y * w + x) * 4)"
    and k: "k div 4 = y * w + x"
  shows "ditherPixel w pal y x d' ! k = ditherPixel w pal y x d ! k"
proof -
  have rng': "(y * w + x) * 4 + 3 < length d'" using rng len by simp
  have "k = 4 * (y * w + x) \<or> k = 4 * (y * w + x) + 1 \<or> k = 4 * (y * w + x) + 2
      \<or> k = 4 * (y * w + x) + 3"
    using k by (rule four_cases)
  then have "k = (y * w + x) * 4 \<or> k = (y * w + x) * 4 + 1 \<or> k = (y * w + x) * 4 + 2
      \<or> k = (y * w + x) * 4 + 3"
    by (simp add: mult.commute)
  then show ?thesis
    using ditherPixel_at [OF rng, of pal] ditherPixel_at [OF rng', of pal] red
    by (elim disjE) simp_all
qed

lemma byte_index_pixel:
  assumes "wf_image img" and "k < length (data img)"
  obtains x y where "x < width img" and "y < height img" and "k div 4 = y * width img + x"
proof -
  let ?w = "width img" and ?p = "k div 4"
  have w: "0 < ?w" using assms(1) by (simp add: wf_image_def)
  have "?p < ?w * height img" using assms by (simp add: wf_image_def)
  then have "?p div ?w < height img" by (simp add: less_mult_imp_div_less mult.commute)
  moreover have "?p mod ?w < ?w" using w by simp
  moreover have "?p = ?p div ?w * ?w + ?p mod ?w" by simp
  ultimately show ?thesis by (intro that)
qed

text \<open>
  Claim C10. The output of \<^verbatim>\<open>ditherAndColorize\<close> depends on the red channel and the
  position of each pixel only: two well-formed images of the same size that agree on
  the red channel of every pixel are mapped to the same image, whatever their green,
  blue and alpha channels hold.
\<close>

theorem dither_reads_red_only:
  assumes "wf_image a" and "wf_image b"
    and "width a = width b" and "height a = height b" and "length pal = 4"
    and "\<forall>x<width a. \<forall>y<height a. fst (pixelAt a x y) = fst (pixelAt b x y)"
  shows "ditherAndColorize a pal = ditherAndColorize b pal"
proof -
  let ?w = "width a" and ?h = "height a"
  let ?run = "\<lambda>d. fold (\<lambda>y. fold (\<lambda>x. ditherPixel ?w pal y x) [0..<?w]) [0..<?h] d"
  have len: "length (data b) = length (data a)"
    using assms(1-4) by (simp add: wf_image_def)
  have "?run (data a) = ?run (data b)"
  proof (rule nth_equalityI)
    show "length (?run (data a)) = length (?run (data b))"
      by (simp add: dither_loops_length len)
  next
    fix k assume "k < length (?run (data a))"
    then have k: "k < length (data a)" by (simp add: dither_loops_length)
    with assms(1) obtain x y where xy: "x < ?w" "y < ?h" and p: "k div 4 = y * ?w + x"
      by (rule byte_index_pixel)
    have rng: "(y * ?w + x) * 4 + 3 < length (data a)"
      using assms(1) xy by (rule pixel_channel_in_range)
    have "fst (pixelAt a x y) = fst (pixelAt b x y)" using assms(6) xy by simp
    then have red: "data b ! ((y * ?w + x) * 4) = data a ! ((y * ?w + x) * 4)"
      by (simp add: red_pixelAt assms(3) [symmetric])
    have "?run (data a) ! k = ditherPixel ?w pal y x (data a) ! k"
      using xy p by (rule dither_loops_nth)
    also have "\<dots> = ditherPixel ?w pal y x (data b) ! k"
      using rng len red p by (rule ditherPixel_cong [symmetric])
    also have "\<dots> = ?run (data b) ! k"
      using xy p by (rule dither_loops_nth [symmetric])
    finally show "?run (data a) ! k = ?run (data b) ! k" .
  qed
  then have "data (ditherAndColorize a pal) = data (ditherAndColorize b pal)"
    by (simp add: ditherAndColorize_def assms(3,4) [symmetric])
  then show ?thesis
    using assms(3,4) by (intro ImageData.equality) simp_all
qed

theorem dither_reads_red_only_witness:
  "\<lparr>width = 2, height = 1, data = [200, 1, 2, 3, 10, 20, 30, 40]\<rparr>
     \<noteq> \<lparr>width = 2, height = 1, data = [200, 9, 8, 7, 10, 0, 0, 0 :: byte]\<rparr>
   \<and> ditherAndColorize \<lparr>width = 2, height = 1, data = [200, 1, 2, 3, 10, 20, 30, 40]\<rparr>
        [(15, 56, 15), (48, 98, 48), (139, 172, 15), (155, 188, 15)]
     = ditherAndColorize \<lparr>width = 2, height = 1, data = [200, 9, 8, 7, 10, 0, 0, 0]\<rparr>
        [(15, 56, 15), (48, 98, 48), (139, 172, 15), (155, 188, 15)]"
proof -
  let ?a = "\<lparr>width = 2, height = 1, data = [200, 1, 2, 3, 10, 20, 30, 40 :: byte]\<rparr>"
  let ?b = "\<lparr>width = 2, height = 1, data = [200, 9, 8, 7, 10, 0, 0, 0 :: byte]\<rparr>"
  let ?pal = "[(15, 56, 15), (48, 98, 48), (139, 172, 15), (155, 188, 15) :: rgb]"
  have wf: "wf_image ?a" "wf_image ?b" by (simp_all add: wf_image_def)
  have red: "\<forall>x<width ?a. \<forall>y<height ?a. fst (pixelAt ?a x y) = fst (pixelAt ?b x y)"
    by (auto simp: pixelAt_def less_Suc_eq numeral_2_eq_2)
  have "ditherAndColorize ?a ?pal = ditherAndColorize ?b ?pal"
    using wf _ _ _ red by (rule dither_reads_red_only) simp_all
  moreover have "?a \<noteq> ?b" by simp
  ultimately show ?thesis by (intro conjI)
qed

section \<open>Palette keys\<close>

lemma getPaletteRgb_unknown:
  assumes "key \<notin> fst ` set PALETTES" and "key \<notin> set Object_prototype_names"
  shows "getPaletteRgb key = Inl (Error (''Unknown palette: '' @ key))"
proof -
  have "map_of PALETTES key = None" using assms(1) by (simp add: map_of_eq_None_iff)
  then show ?thesis using assms(2) by (simp add: getPaletteRgb_def PALETTES_get_def)
qed

lemma processFrame_unknown:
  assumes "key \<notin> fst ` set PALETTES" and "key \<notin> set Object_prototype_names"
  shows "processFrame drawImage src key opts = Inl (Error (''Unknown palette: '' @ key))"
  using getPaletteRgb_unknown [OF assms] by (simp add: processFrame_def Let_def)

lemma registered_keys:
  "map fst PALETTES = [''classic'', ''sunset'', ''amber'', ''teal'', ''noir'', ''vaporwave'']"
  by (simp add: PALETTES_def)

lemma getPaletteRgb_registered:
  assumes "key \<in> fst ` set PALETTES"
  shows "\<exists>pal. getPaletteRgb key = Inr pal"
proof -
  from assms obtain p where "map_of PALETTES key = Some p"
    by (metis domD dom_map_of_conv_image_fst)
  then show ?thesis by (simp add: getPaletteRgb_def PALETTES_get_def)
qed

lemma processFrame_registered_key:
  assumes "key \<in> fst ` set PALETTES"
  shows "\<exists>out. processFrame drawImage src key opts = Inr out"
proof -
  from assms obtain pal where "getPaletteRgb key = Inr pal"
    using getPaletteRgb_registered by blast
  then show ?thesis by (rule processFrame_registered)
qed

text \<open>
  Claim C4, at the key \<^verbatim>\<open>"constructor"\<close>. The key is none of the six registered ones,
  yet \<^verbatim>\<open>PALETTES["constructor"]\<close> is the inherited \<^verbatim>\<open>Object\<close> function, which passes
  the guard \<^verbatim>\<open>if (!palette)\<close>; reading \<^verbatim>\<open>palette.colors.map\<close> then raises a
  \<^verbatim>\<open>TypeError\<close>, not the error \<^verbatim>\<open>Unknown palette: constructor\<close>.
\<close>

theorem processFrame_inherited_key:
  "''constructor'' \<notin> fst ` set PALETTES
   \<and> processFrame drawImage src ''constructor'' opts = Inl TypeError
   \<and> processFrame drawImage src ''constructor'' opts
       \<noteq> Inl (Error (''Unknown palette: '' @ ''constructor''))"
proof -
  have "''constructor'' \<notin> fst ` set PALETTES" by (simp add: PALETTES_def)
  moreover have "getPaletteRgb ''constructor'' = Inl TypeError"
    by (simp add: getPaletteRgb_def PALETTES_get_def PALETTES_def Object_prototype_names_def)
  then have "processFrame drawImage src ''constructor'' opts = Inl TypeError"
    by (simp add: processFrame_def Let_def)
  ultimately show ?thesis by simp
qed

section \<open>The edge stage switched off\<close>

lemma edge_stage_run:
  assumes "edgeStrength opts = Some e" and "0 < e" and "getPaletteRgb key = Inr pal"
  shows "processFrame drawImage src key opts =
           Inr (ditherAndColorize
                  (edgeEnhance exactOps
                     (applyContrast
                        (toGrayscale (downscale drawImage src GBC_WIDTH GBC_HEIGHT))
                        (case contrast opts of None \<Rightarrow> 1.2 | Some c \<Rightarrow> c))
                     e)
                  pal)"
  using assms by (simp add: processFrame_def Let_def)

text \<open>
  Claim C7. With an edge strength that is 0 or negative, \<^verbatim>\<open>processFrame\<close> returns
  what the pipeline without the edge enhancer returns: the stage is not run.
\<close>

theorem edge_stage_skipped:
  assumes "edgeStrength opts = Some e" and "e \<le> 0"
  shows "processFrame drawImage src key opts = pipelineWithoutEdge drawImage src key opts"
  using assms by (simp add: processFrame_def pipelineWithoutEdge_def Let_def split: sum.splits)

theorem edge_stage_skipped_witness:
  "processFrame (\<lambda>s w h. \<lparr>width = w, height = h, data = replicate (w * h * 4) 0\<rparr>)
       \<lparr>width = 1, height = 1, data = [1, 2, 3, 4]\<rparr> ''classic''
       \<lparr>contrast = Some 1, edgeStrength = Some 0\<rparr>
   = pipelineWithoutEdge (\<lambda>s w h. \<lparr>width = w, height = h, data = replicate (w * h * 4) 0\<rparr>)
       \<lparr>width = 1, height = 1, data = [1, 2, 3, 4]\<rparr> ''classic''
       \<lparr>contrast = Some 1, edgeStrength = Some 0\<rparr>
   \<and> (\<exists>out. pipelineWithoutEdge (\<lambda>s w h. \<lparr>width = w, height = h, data = replicate (w * h * 4) 0\<rparr>)
       \<lparr>width = 1, height = 1, data = [1, 2, 3, 4]\<rparr> ''classic''
       \<lparr>contrast = Some 1, edgeStrength = Some 0\<rparr> = Inr out)"
proof -
  let ?dI = "\<lambda>(s::ImageData) w h. \<lparr>width = w, height = h, data = replicate (w * h * 4) (0::byte)\<rparr>"
  let ?src = "\<lparr>width = 1, height = 1, data = [1, 2, 3, 4 :: byte]\<rparr>"
  let ?opts = "\<lparr>contrast = Some 1, edgeStrength = Some 0\<rparr>"
  have "edgeStrength ?opts = Some 0" "(0::real) \<le> 0" by simp_all
  then have eq: "processFrame ?dI ?src ''classic'' ?opts
      = pipelineWithoutEdge ?dI ?src ''classic'' ?opts"
    by (rule edge_stage_skipped)
  obtain out where "processFrame ?dI ?src ''classic'' ?opts = Inr out"
    using processFrame_registered [OF getPaletteRgb_classic, of ?dI ?src ?opts] ..
  with eq have "\<exists>out. pipelineWithoutEdge ?dI ?src ''classic'' ?opts = Inr out"
    by (intro exI [of _ out]) simp
  with eq show ?thesis by (intro conjI)
qed

section \<open>Contrast with factor 1.0\<close>

lemma toUint8Clamp_round:
  assumes "0 < r" and "r < 255" and "\<bar>r - of_int n\<bar> < 1 / 2"
  shows "toUint8Clamp r = of_int n"
proof (cases "of_int n \<le> r")
  case True
  have "r < of_int n + 1" using assms(3) by linarith
  with True have f: "\<lfloor>r\<rfloor> = n" by (intro floor_unique)
  have "r < of_int n + 1 / 2" using assms(3) by linarith
  with f assms(1,2) show ?thesis by (simp add: toUint8Clamp_def Let_def)
next
  case False
  have e: "real_of_int (n - 1) = real_of_int n - 1" by simp
  have "of_int (n - 1) \<le> r" unfolding e using assms(3) by linarith
  moreover have "r < of_int (n - 1) + 1" unfolding e using False by linarith
  ultimately have f: "\<lfloor>r\<rfloor> = n - 1" by (intro floor_unique)
  have gt: "of_int (n - 1) + 1 / 2 < r" unfolding e using assms(3) by linarith
  then have "\<not> r < of_int (n - 1) + 1 / 2" by simp
  with f gt assms(1,2) show ?thesis by (simp add: toUint8Clamp_def Let_def)
qed

lemma toUint8Clamp_near_int:
  assumes "0 \<le> n" and "n \<le> 255" and "\<bar>e\<bar> < 1 / 2"
  shows "toUint8Clamp (max 0 (min 255 (of_int n + e))) = of_int n"
proof -
  let ?r = "max 0 (min 255 (of_int n + e)) :: real"
  consider (lo) "?r \<le> 0" | (hi) "0 < ?r" "255 \<le> ?r" | (mid) "0 < ?r" "?r < 255"
    by linarith
  then show ?thesis
  proof cases
    case lo
    then have "real_of_int n + e \<le> 0" by simp
    with assms(3) have "real_of_int n < 1" by linarith
    with assms(1) have "n = 0" by simp
    with lo show ?thesis by (simp add: toUint8Clamp_def)
  next
    case hi
    then have "255 \<le> real_of_int n + e" by simp
    with assms(3) have "254 < real_of_int n" by linarith
    then have "254 < n" by linarith
    with assms(2) have "n = 255" by simp
    with hi show ?thesis by (simp add: toUint8Clamp_def)
  next
    case mid
    then have "?r = of_int n + e" by (simp add: max_def min_def split: if_splits)
    then have "\<bar>?r - of_int n\<bar> < 1 / 2" using assms(3) by simp
    with mid show ?thesis by (rule toUint8Clamp_round)
  qed
qed

lemma unat_byte_le: "unat (v::byte) \<le> 255"
proof -
  have "unat v < 2 ^ LENGTH(8)" by (rule unsigned_less)
  then show ?thesis by simp
qed

lemma num_range: "0 \<le> num v" "num v \<le> 255"
  using unat_byte_le [of v] by (simp_all add: num_def del: of_nat_unat)

lemma toUint8Clamp_near:
  assumes "\<bar>e\<bar> < 1 / 2"
  shows "toUint8Clamp (max 0 (min 255 (num v + e))) = v"
proof -
  have "0 \<le> int (unat v)" by simp
  moreover have "int (unat v) \<le> 255" using unat_byte_le [of v] by (simp del: of_nat_unat)
  ultimately have "toUint8Clamp (max 0 (min 255 (of_int (int (unat v)) + e)))
      = of_int (int (unat v))"
    using assms by (rule toUint8Clamp_near_int)
  moreover have "real_of_int (int (unat v)) = num v" by (simp add: num_def del: of_nat_unat)
  moreover have "(of_int (int (unat v)) :: byte) = v" by simp
  ultimately show ?thesis by (simp del: of_nat_unat)
qed

lemma contrastValue_one: "contrastValue 1 v = num v"
  using num_range [of v] by (simp add: contrastValue_def)

lemma toUint8Clamp_contrast_one: "toUint8Clamp (contrastValue 1 v) = v"
proof -
  have "toUint8Clamp (max 0 (min 255 (num v + 0))) = v"
    by (rule toUint8Clamp_near) simp
  then show ?thesis using num_range [of v] by (simp add: contrastValue_one)
qed

lemma contrastStep_at:
  assumes "4 * p + 3 < length d"
  shows "contrastStep f (4 * p) d ! (4 * p) = toUint8Clamp (contrastValue f (d ! (4 * p)))"
    and "contrastStep f (4 * p) d ! (4 * p + 1) = toUint8Clamp (contrastValue f (d ! (4 * p)))"
    and "contrastStep f (4 * p) d ! (4 * p + 2) = toUint8Clamp (contrastValue f (d ! (4 * p)))"
    and "contrastStep f (4 * p) d ! (4 * p + 3) = d ! (4 * p + 3)"
  using assms by (simp_all add: contrastStep_def Let_def)

lemma applyContrast_one_data:
  assumes wf: "wf_image img"
    and gray: "\<forall>x<width img. \<forall>y<height img.
                 case pixelAt img x y of (r, g, b, a) \<Rightarrow> g = r \<and> b = r"
  shows "data (applyContrast img 1) = data img"
proof (rule nth_equalityI)
  show "length (data (applyContrast img 1)) = length (data img)" by simp
next
  fix k assume "k < length (data (applyContrast img 1))"
  then have k: "k < length (data img)" by simp
  let ?w = "width img" and ?d = "data img"
  from wf k obtain x y where xy: "x < ?w" "y < height img" and p: "k div 4 = y * ?w + x"
    by (rule byte_index_pixel)
  define p where "p = y * ?w + x"
  have kp: "k div 4 = p" using p by (simp add: p_def)
  have idx: "(y * ?w + x) * 4 = 4 * p" by (simp add: p_def)
  have "(y * ?w + x) * 4 + 3 < length ?d" using wf xy by (rule pixel_channel_in_range)
  then have rng: "4 * p + 3 < length ?d" by (simp only: idx)
  have pm: "p < ?w * height img" unfolding p_def using xy by (rule pixel_index_bound)
  have "case pixelAt img x y of (r, g, b, a) \<Rightarrow> g = r \<and> b = r" using gray xy by simp
  then have g: "?d ! (4 * p + 1) = ?d ! (4 * p)" and b: "?d ! (4 * p + 2) = ?d ! (4 * p)"
    unfolding pixelAt_def Let_def idx by simp_all
  have "data (applyContrast img 1) ! k = contrastStep 1 (4 * p) ?d ! k"
    unfolding applyContrast_def using pm kp
    by (simp add: pixelStarts_wf [OF wf] contrast_loop_nth)
  also have "\<dots> = ?d ! k"
    using four_cases [OF kp] contrastStep_at [OF rng, of 1] g b
    by (elim disjE) (simp_all add: toUint8Clamp_contrast_one)
  finally show "data (applyContrast img 1) ! k = ?d ! k" .
qed

text \<open>
  Claim C8. With factor 1.0, \<^verbatim>\<open>applyContrast\<close> returns a well-formed grayscale image
  (R = G = B in every pixel) unchanged: for every byte \<open>v\<close> the Number
  \<open>clamp(((v / 255 - 0.5) * 1.0 + 0.5) * 255, 0, 255)\<close> is stored back as \<open>v\<close>. The store
  rounds to the nearest byte, so the same holds when the Number is off \<open>v\<close> by less
  than one half.
\<close>

theorem contrast_one_identity:
  assumes "wf_image img"
    and "\<forall>x<width img. \<forall>y<height img.
           case pixelAt img x y of (r, g, b, a) \<Rightarrow> g = r \<and> b = r"
  shows "applyContrast img 1.0 = img
         \<and> (\<forall>v. toUint8Clamp (max 0 (min 255 (((num v / 255 - 0.5) * 1.0 + 0.5) * 255))) = v)
         \<and> (\<forall>v e. \<bar>e\<bar> < 1 / 2 \<longrightarrow> toUint8Clamp (max 0 (min 255 (num v + e))) = v)"
proof (intro conjI allI impI)
  have "data (applyContrast img 1) = data img" using assms by (rule applyContrast_one_data)
  then have "applyContrast img 1 = img" by (intro ImageData.equality) simp_all
  then show "applyContrast img 1.0 = img" by simp
next
  fix v :: byte
  have "toUint8Clamp (contrastValue 1 v) = v" by (rule toUint8Clamp_contrast_one)
  then show "toUint8Clamp (max 0 (min 255 (((num v / 255 - 0.5) * 1.0 + 0.5) * 255))) = v"
    by (simp add: contrastValue_def)
next
  fix v :: byte and e :: real
  assume "\<bar>e\<bar> < 1 / 2"
  then show "toUint8Clamp (max 0 (min 255 (num v + e))) = v" by (rule toUint8Clamp_near)
qed

theorem contrast_one_identity_witness:
  "wf_image \<lparr>width = 2, height = 1, data = [7, 7, 7, 255, 200, 200, 200, 13]\<rparr>
   \<and> applyContrast \<lparr>width = 2, height = 1, data = [7, 7, 7, 255, 200, 200, 200, 13]\<rparr> 1.0
       = \<lparr>width = 2, height = 1, data = [7, 7, 7, 255, 200, 200, 200, 13]\<rparr>"
proof -
  let ?img = "\<lparr>width = 2, height = 1, data = [7, 7, 7, 255, 200, 200, 200, 13 :: byte]\<rparr>"
  have wf: "wf_image ?img" by (simp add: wf_image_def)
  have gray: "\<forall>x<width ?img. \<forall>y<height ?img.
           case pixelAt ?img x y of (r, g, b, a) \<Rightarrow> g = r \<and> b = r"
    by (auto simp: pixelAt_def less_Suc_eq numeral_2_eq_2)
  have "applyContrast ?img 1.0 = ?img"
    by (rule contrast_one_identity [OF wf gray, THEN conjunct1])
  with wf show ?thesis by (intro conjI)
qed

section \<open>The mid-gray frame\<close>

lemma grayscaleStep_red:
  assumes "4 * p + 3 < length d"
  shows "grayscaleStep (4 * p) d ! (4 * p) =
           toUint8Clamp (0.299 * num (d ! (4 * p)) + 0.587 * num (d ! (4 * p + 1))
                          + 0.114 * num (d ! (4 * p + 2)))"
  using assms by (simp add: grayscaleStep_def Let_def)

lemma toGrayscale_red:
  assumes wf: "wf_image img" and xy: "x < width img" "y < height img"
  shows "fst (pixelAt (toGrayscale img) x y) =
           (case pixelAt img x y of (r, g, b, a) \<Rightarrow>
              toUint8Clamp (0.299 * num r + 0.587 * num g + 0.114 * num b))"
proof -
  let ?w = "width img" and ?d = "data img"
  define p where "p = y * ?w + x"
  have idx: "(y * ?w + x) * 4 = 4 * p" by (simp add: p_def)
  have "(y * ?w + x) * 4 + 3 < length ?d" using wf xy by (rule pixel_channel_in_range)
  then have rng: "4 * p + 3 < length ?d" by (simp only: idx)
  have pm: "p < ?w * height img" unfolding p_def using xy by (rule pixel_index_bound)
  have "data (toGrayscale img) ! (4 * p) = grayscaleStep (4 * p) ?d ! (4 * p)"
    unfolding toGrayscale_def using pm
    by (simp add: pixelStarts_wf [OF wf] grayscale_loop_nth)
  then have "data (toGrayscale img) ! (4 * p) =
      toUint8Clamp (0.299 * num (?d ! (4 * p)) + 0.587 * num (?d ! (4 * p + 1))
                     + 0.114 * num (?d ! (4 * p + 2)))"
    by (simp only: grayscaleStep_red [OF rng])
  then show ?thesis
    unfolding pixelAt_def Let_def toGrayscale_wf idx prod.case fst_conv .
qed

lemma applyContrast_red:
  assumes wf: "wf_image img" and xy: "x < width img" "y < height img"
  shows "fst (pixelAt (applyContrast img f) x y) =
           toUint8Clamp (contrastValue f (fst (pixelAt img x y)))"
proof -
  let ?w = "width img" and ?d = "data img"
  define p where "p = y * ?w + x"
  have idx: "(y * ?w + x) * 4 = 4 * p" by (simp add: p_def)
  have "(y * ?w + x) * 4 + 3 < length ?d" using wf xy by (rule pixel_channel_in_range)
  then have rng: "4 * p + 3 < length ?d" by (simp only: idx)
  have pm: "p < ?w * height img" unfolding p_def using xy by (rule pixel_index_bound)
  have "data (applyContrast img f) ! (4 * p) = contrastStep f (4 * p) ?d ! (4 * p)"
    unfolding applyContrast_def using pm
    by (simp add: pixelStarts_wf [OF wf] contrast_loop_nth)
  then have "data (applyContrast img f) ! (4 * p) = toUint8Clamp (contrastValue f (?d ! (4 * p)))"
    by (simp only: contrastStep_at(1) [OF rng])
  then show ?thesis
    unfolding red_pixelAt applyContrast_wf idx .
qed

lemma toUint8Clamp_128: "toUint8Clamp 128 = 128"
  by (simp add: toUint8Clamp_def)

lemma mid_gray_shade:
  assumes "i < 4" and "j < 4"
  shows "shadeOf (num 128 / 255 + (BAYER_4x4 ! i ! j - 0.5) * 0.33)
         = (if 8 / 16 \<le> BAYER_4x4 ! i ! j then 2 else 1)"
  using less_4_cases [OF assms(1)] less_4_cases [OF assms(2)]
  by (elim disjE) (simp_all add: BAYER_4x4_def shadeOf_def num_def)

text \<open>
  Claim C2. Take a well-formed 128\<times>112 source whose pixels all have R = G = B = 128 and
  which the canvas reproduces when it draws it at 128\<times>112. With contrast 1.0, edge
  strength 0 and the palette \<^verbatim>\<open>classic\<close>, \<^verbatim>\<open>processFrame\<close> returns a 128\<times>112 image whose
  pixel at \<open>(x, y)\<close> is the level-2 colour \<^verbatim>\<open>#8bac0f\<close> = (139, 172, 15) where the Bayer
  entry of \<open>(y mod 4, x mod 4)\<close> is at least 8/16 and the level-1 colour
  \<^verbatim>\<open>#306230\<close> = (48, 98, 48) elsewhere; no pixel has the level-0 or the level-3 colour.
\<close>

theorem mid_gray_scenario:
  assumes "wf_image src" and "width src = 128" and "height src = 112"
    and "\<forall>x<128. \<forall>y<112. case pixelAt src x y of
           (r, g, b, a) \<Rightarrow> r = 128 \<and> g = 128 \<and> b = 128"
    and "drawImage src GBC_WIDTH GBC_HEIGHT = src"
    and "x < 128" and "y < 112"
  shows "\<exists>out. processFrame drawImage src ''classic''
                 \<lparr>contrast = Some 1.0, edgeStrength = Some 0\<rparr> = Inr out
           \<and> width out = 128 \<and> height out = 112
           \<and> pixelAt out x y =
                (if 8 / 16 \<le> BAYER_4x4 ! (y mod 4) ! (x mod 4)
                 then (139, 172, 15, 255) else (48, 98, 48, 255))
           \<and> pixelAt out x y \<noteq> (15, 56, 15, 255)
           \<and> pixelAt out x y \<noteq> (155, 188, 15, 255)
           \<and> getPaletteRgb ''classic''
               = Inr [(15, 56, 15), hexToRgb ''#306230'', hexToRgb ''#8bac0f'', (155, 188, 15)]
           \<and> hexToRgb ''#306230'' = (48, 98, 48) \<and> hexToRgb ''#8bac0f'' = (139, 172, 15)"
proof -
  let ?pal = "[(15, 56, 15), (48, 98, 48), (139, 172, 15), (155, 188, 15) :: rgb]"
  let ?g1 = "toGrayscale src"
  let ?g2 = "applyContrast ?g1 1"
  let ?out = "ditherAndColorize ?g2 ?pal"
  have xy: "x < width src" "y < height src" using assms by simp_all
  have pf: "processFrame drawImage src ''classic''
              \<lparr>contrast = Some 1.0, edgeStrength = Some 0\<rparr> = Inr ?out"
    using assms(5) by (simp add: processFrame_def Let_def getPaletteRgb_classic downscale_def)
  have wf1: "wf_image ?g1" using assms(1) by (simp add: wf_image_def)
  have wf2: "wf_image ?g2" using assms(1) by (simp add: wf_image_def)
  have "case pixelAt src x y of (r, g, b, a) \<Rightarrow> r = 128 \<and> g = 128 \<and> b = 128"
    using assms(4,6,7) by simp
  then have "fst (pixelAt ?g1 x y) = toUint8Clamp (0.299 * num 128 + 0.587 * num 128 + 0.114 * num 128)"
    unfolding toGrayscale_red [OF assms(1) xy] by (auto split: prod.splits)
  then have r1: "fst (pixelAt ?g1 x y) = 128"
    by (simp add: num_def toUint8Clamp_128)
  have "fst (pixelAt ?g2 x y) = toUint8Clamp (contrastValue 1 (fst (pixelAt ?g1 x y)))"
    using wf1 xy by (intro applyContrast_red) simp_all
  then have r2: "fst (pixelAt ?g2 x y) = 128"
    by (simp only: r1 toUint8Clamp_contrast_one)
  have lv: "shadeOf (num 128 / 255 + (BAYER_4x4 ! (y mod 4) ! (x mod 4) - 0.5) * 0.33)
         = (if 8 / 16 \<le> BAYER_4x4 ! (y mod 4) ! (x mod 4) then 2 else 1)"
    by (rule mid_gray_shade) simp_all
  have "pixelAt ?out x y =
      (case ?pal ! shadeOf (num (fst (pixelAt ?g2 x y)) / 255
                      + (BAYER_4x4 ! (y mod 4) ! (x mod 4) - 0.5) * 0.33)
       of (r, g, b) \<Rightarrow> (r, g, b, 255))"
    unfolding red_pixelAt using wf2 xy by (intro dither_pixelAt) simp_all
  then have px: "pixelAt ?out x y =
      (if 8 / 16 \<le> BAYER_4x4 ! (y mod 4) ! (x mod 4)
       then (139, 172, 15, 255) else (48, 98, 48, 255))"
    unfolding r2 lv by simp
  have dims: "width ?out = 128" "height ?out = 112" using assms(2,3) by simp_all
  have ne: "pixelAt ?out x y \<noteq> (15, 56, 15, 255)" "pixelAt ?out x y \<noteq> (155, 188, 15, 255)"
    unfolding px by simp_all
  have pal: "getPaletteRgb ''classic''
      = Inr [(15, 56, 15), hexToRgb ''#306230'', hexToRgb ''#8bac0f'', (155, 188, 15)]"
    by (simp add: getPaletteRgb_classic hexToRgb_classic)
  show ?thesis
    by (rule exI [of _ ?out]) (intro conjI pf dims px ne pal hexToRgb_classic)
qed

theorem mid_gray_scenario_witness:
  "\<exists>out. processFrame (\<lambda>s w h. s)
            \<lparr>width = 128, height = 112,
             data = map (\<lambda>k. if k mod 4 = 3 then 255 else 128) [0..<128 * 112 * 4]\<rparr>
            ''classic'' \<lparr>contrast = Some 1.0, edgeStrength = Some 0\<rparr> = Inr out
     \<and> pixelAt out 0 0 = (48, 98, 48, 255)
     \<and> pixelAt out 1 0 = (139, 172, 15, 255)"
proof -
  let ?src = "\<lparr>width = 128, height = 112,
             data = map (\<lambda>k. if k mod 4 = 3 then 255 else (128::byte)) [0..<128 * 112 * 4]\<rparr>"
  let ?dI = "\<lambda>(s::ImageData) (w::nat) (h::nat). s"
  let ?opts = "\<lparr>contrast = Some 1.0, edgeStrength = Some 0\<rparr>"
  have wf: "wf_image ?src" by (simp add: wf_image_def)
  have w: "width ?src = 128" and h: "height ?src = 112" by simp_all
  have gray: "\<forall>x<128. \<forall>y<112. case pixelAt ?src x y of
           (r, g, b, a) \<Rightarrow> r = 128 \<and> g = 128 \<and> b = 128"
  proof (intro allI impI)
    fix x y :: nat
    assume xy: "x < 128" "y < 112"
    define p where "p = y * 128 + x"
    have "p < 128 * 112" unfolding p_def using xy by (rule pixel_index_bound)
    then have rng: "p * 4 + 3 < 57344" by simp
    have d: "data ?src ! k = (if k mod 4 = 3 then 255 else 128)" if "k < 57344" for k
      using that by simp
    have m: "p * 4 mod 4 = 0" "(p * 4 + 1) mod 4 = 1" "(p * 4 + 2) mod 4 = 2"
      "(p * 4 + 3) mod 4 = 3"
      using mod_mult_self3 [of p 4 1] mod_mult_self3 [of p 4 2] mod_mult_self3 [of p 4 3]
      by simp_all
    have "data ?src ! (p * 4) = 128" "data ?src ! (p * 4 + 1) = 128"
      "data ?src ! (p * 4 + 2) = 128" "data ?src ! (p * 4 + 3) = 255"
      using rng by (simp_all only: d m) simp_all
    then have "pixelAt ?src x y = (128, 128, 128, 255)"
      unfolding p_def by (intro pixelAt_eqI) simp_all
    then show "case pixelAt ?src x y of (r, g, b, a) \<Rightarrow> r = 128 \<and> g = 128 \<and> b = 128"
      by simp
  qed
  have canvas: "?dI ?src GBC_WIDTH GBC_HEIGHT = ?src" by simp
  note scenario = mid_gray_scenario [of ?src ?dI, OF wf w h gray canvas]
  have "0 < (128::nat)" "0 < (112::nat)" "1 < (128::nat)" by simp_all
  from scenario [OF this(1,2)] obtain out where
    out: "processFrame ?dI ?src ''classic'' ?opts = Inr out"
    and a: "pixelAt out 0 0 = (if 8 / 16 \<le> BAYER_4x4 ! (0 mod 4) ! (0 mod 4)
                 then (139, 172, 15, 255) else (48, 98, 48, 255))"
    by (elim exE conjE)
  from scenario [OF \<open>1 < 128\<close> \<open>0 < 112\<close>] obtain out' where
    out': "processFrame ?dI ?src ''classic'' ?opts = Inr out'"
    and b': "pixelAt out' 1 0 = (if 8 / 16 \<le> BAYER_4x4 ! (0 mod 4) ! (1 mod 4)
                 then (139, 172, 15, 255) else (48, 98, 48, 255))"
    by (elim exE conjE)
  from out out' have "out' = out" by simp
  with b' have b: "pixelAt out 1 0 = (if 8 / 16 \<le> BAYER_4x4 ! (0 mod 4) ! (1 mod 4)
                 then (139, 172, 15, 255) else (48, 98, 48, 255))"
    by simp
  have a0: "pixelAt out 0 0 = (48, 98, 48, 255)" using a by (simp add: BAYER_4x4_def)
  have b0: "pixelAt out 1 0 = (139, 172, 15, 255)" using b by (simp add: BAYER_4x4_def)
  show ?thesis by (rule exI [of _ out]) (intro conjI out a0 b0)
qed

section \<open>Nearest-neighbour upscaling\<close>

lemma scaled_index:
  assumes "0 < w" and "0 < scale"
  shows "x * w div (w * scale) = x div (scale::nat)"
proof -
  have "x * w div (w * scale) = (w * x) div (w * scale)" by (simp add: mult.commute)
  also have "\<dots> = x div scale" using assms(1) by (intro div_mult_mult1) simp
  finally show ?thesis .
qed

lemma drawImageNearest_nth:
  assumes "x < dw" and "y < dh" and "c < 4"
  shows "data (drawImageNearest src dw dh) ! ((y * dw + x) * 4 + c) =
           data src ! (((y * height src div dh) * width src + x * width src div dw) * 4 + c)"
proof -
  define p where "p = y * dw + x"
  have "p < dw * dh" unfolding p_def using assms(1,2) by (rule pixel_index_bound)
  then have k: "p * 4 + c < dw * dh * 4" using assms(3) by simp
  have a: "(p * 4 + c) div 4 = p" "(p * 4 + c) mod 4 = c" "c mod 4 = c"
    using assms(3) by simp_all
  have b: "p mod dw = x" "p div dw = y" using assms(1) by (simp_all add: p_def)
  have "data (drawImageNearest src dw dh) ! (p * 4 + c) =
      data src ! (((y * height src div dh) * width src + x * width src div dw) * 4 + c)"
    using k by (simp add: drawImageNearest_def Let_def a b del: upt_Suc)
  then show ?thesis by (simp only: p_def)
qed

lemma upscaleNearest_dims:
  "width (upscaleNearest drawImageNearest src scale) = width src * scale"
  "height (upscaleNearest drawImageNearest src scale) = height src * scale"
  "length (data (upscaleNearest drawImageNearest src scale))
     = width src * scale * (height src * scale) * 4"
  by (simp_all add: upscaleNearest_def drawImageNearest_def Let_def)

lemma upscaleNearest_pixelAt:
  assumes wf: "wf_image src" and scale: "0 < scale"
    and xy: "x < width src * scale" "y < height src * scale"
  shows "pixelAt (upscaleNearest drawImageNearest src scale) x y
         = pixelAt src (x div scale) (y div scale)"
proof -
  let ?W = "width src" and ?H = "height src"
  let ?dw = "?W * scale" and ?dh = "?H * scale"
  let ?out = "upscaleNearest drawImageNearest src scale"
  have pos: "0 < ?W" "0 < ?H" using wf by (simp_all add: wf_image_def)
  have sx: "x * ?W div ?dw = x div scale" using pos(1) scale by (rule scaled_index)
  have sy: "y * ?H div ?dh = y div scale" using pos(2) scale by (rule scaled_index)
  have d: "data ?out = data (drawImageNearest src ?dw ?dh)"
    by (simp add: upscaleNearest_def Let_def)
  have nth: "data ?out ! ((y * ?dw + x) * 4 + c)
      = data src ! (((y div scale) * ?W + x div scale) * 4 + c)" if "c < 4" for c
    unfolding d drawImageNearest_nth [OF xy that] sx sy ..
  have "pixelAt ?out x y =
      (data src ! (((y div scale) * ?W + x div scale) * 4),
       data src ! (((y div scale) * ?W + x div scale) * 4 + 1),
       data src ! (((y div scale) * ?W + x div scale) * 4 + 2),
       data src ! (((y div scale) * ?W + x div scale) * 4 + 3))"
    using nth [of 0] nth [of 1] nth [of 2] nth [of 3]
    by (intro pixelAt_eqI) (simp_all add: upscaleNearest_dims)
  then show ?thesis by (simp add: pixelAt_def Let_def)
qed

lemma upscaleNearest_one:
  assumes wf: "wf_image src"
  shows "upscaleNearest drawImageNearest src 1 = src"
proof -
  let ?W = "width src" and ?H = "height src"
  let ?out = "drawImageNearest src ?W ?H"
  have out: "upscaleNearest drawImageNearest src 1 = ?out"
    by (simp add: upscaleNearest_def Let_def)
  have pos: "0 < ?W" "0 < ?H" using wf by (simp_all add: wf_image_def)
  have len: "length (data src) = ?W * ?H * 4" using wf by (simp add: wf_image_def)
  have "data ?out = data src"
  proof (rule nth_equalityI)
    show "length (data ?out) = length (data src)" by (simp add: drawImageNearest_def len)
  next
    fix k assume "k < length (data ?out)"
    then have k: "k < length (data src)" by (simp add: drawImageNearest_def len)
    with wf obtain x y where xy: "x < ?W" "y < ?H" and p: "k div 4 = y * ?W + x"
      by (rule byte_index_pixel)
    have kk: "(y * ?W + x) * 4 + k mod 4 = k" using p by presburger
    have c: "k mod 4 < 4" by simp
    have id: "y * ?H div ?H = y" "x * ?W div ?W = x" using pos by simp_all
    have "data ?out ! ((y * ?W + x) * 4 + k mod 4) = data src ! ((y * ?W + x) * 4 + k mod 4)"
      unfolding drawImageNearest_nth [OF xy c] id ..
    then show "data ?out ! k = data src ! k" unfolding kk .
  qed
  then have "?out = src" by (intro ImageData.equality) (simp_all add: drawImageNearest_def)
  with out show ?thesis by simp
qed

text \<open>
  Claim C9. With the draw without smoothing as the spec describes it
  (\<open>drawImageNearest\<close>), for a well-formed source and a positive scale
  \<^verbatim>\<open>upscaleNearest\<close> returns a well-formed image of width \<open>W * scale\<close> and height
  \<open>H * scale\<close> whose pixel at \<open>(x, y)\<close> is the source pixel at
  \<open>(x div scale, y div scale)\<close>; for scale 3 and a source of at least 2 by 2 pixels the
  pixel at (5, 5) is the source pixel at (1, 1); scale 1 returns an image equal to the
  source.
\<close>

theorem upscaleNearest_replicates:
  assumes "wf_image src" and "0 < scale"
  shows "width (upscaleNearest drawImageNearest src scale) = width src * scale
         \<and> height (upscaleNearest drawImageNearest src scale) = height src * scale
         \<and> wf_image (upscaleNearest drawImageNearest src scale)
         \<and> (\<forall>x<width src * scale. \<forall>y<height src * scale.
               pixelAt (upscaleNearest drawImageNearest src scale) x y
               = pixelAt src (x div scale) (y div scale))
         \<and> (scale = 3 \<and> 1 < width src \<and> 1 < height src \<longrightarrow>
               pixelAt (upscaleNearest drawImageNearest src scale) 5 5 = pixelAt src 1 1)
         \<and> (scale = 1 \<longrightarrow> upscaleNearest drawImageNearest src scale = src)"
proof (intro conjI allI impI)
  show "width (upscaleNearest drawImageNearest src scale) = width src * scale"
    and "height (upscaleNearest drawImageNearest src scale) = height src * scale"
    by (rule upscaleNearest_dims)+
  show "wf_image (upscaleNearest drawImageNearest src scale)"
    using assms by (simp add: wf_image_def upscaleNearest_dims)
next
  fix x y assume "x < width src * scale" and "y < height src * scale"
  with assms show "pixelAt (upscaleNearest drawImageNearest src scale) x y
               = pixelAt src (x div scale) (y div scale)"
    by (rule upscaleNearest_pixelAt)
next
  assume a: "scale = 3 \<and> 1 < width src \<and> 1 < height src"
  then have "5 < width src * scale" "5 < height src * scale" by simp_all
  with assms have "pixelAt (upscaleNearest drawImageNearest src scale) 5 5
               = pixelAt src (5 div scale) (5 div scale)"
    by (rule upscaleNearest_pixelAt)
  with a show "pixelAt (upscaleNearest drawImageNearest src scale) 5 5 = pixelAt src 1 1"
    by simp
next
  assume s: "scale = 1"
  show "upscaleNearest drawImageNearest src scale = src"
    unfolding s using assms(1) by (rule upscaleNearest_one)
qed

theorem upscaleNearest_replicates_witness:
  "wf_image \<lparr>width = 2, height = 2, data =
      [1, 2, 3, 255, 4, 5, 6, 255, 7, 8, 9, 255, 10, 11, 12, 77]\<rparr>
   \<and> width (upscaleNearest drawImageNearest \<lparr>width = 2, height = 2, data =
      [1, 2, 3, 255, 4, 5, 6, 255, 7, 8, 9, 255, 10, 11, 12, 77]\<rparr> 3) = 6
   \<and> pixelAt (upscaleNearest drawImageNearest \<lparr>width = 2, height = 2, data =
      [1, 2, 3, 255, 4, 5, 6, 255, 7, 8, 9, 255, 10, 11, 12, 77]\<rparr> 3) 5 5 = (10, 11, 12, 77)
   \<and> pixelAt (upscaleNearest drawImageNearest \<lparr>width = 2, height = 2, data =
      [1, 2, 3, 255, 4, 5, 6, 255, 7, 8, 9, 255, 10, 11, 12, 77]\<rparr> 3) 2 4 = (7, 8, 9, 255)
   \<and> upscaleNearest drawImageNearest \<lparr>width = 2, height = 2, data =
      [1, 2, 3, 255, 4, 5, 6, 255, 7, 8, 9, 255, 10, 11, 12, 77]\<rparr> 1
     = \<lparr>width = 2, height = 2, data =
      [1, 2, 3, 255, 4, 5, 6, 255, 7, 8, 9, 255, 10, 11, 12, 77]\<rparr>"
proof -
  let ?src = "\<lparr>width = 2, height = 2, data =
      [1, 2, 3, 255, 4, 5, 6, 255, 7, 8, 9, 255, 10, 11, 12, 77 :: byte]\<rparr>"
  have wf: "wf_image ?src" by (simp add: wf_image_def)
  have three: "0 < (3::nat)" and one: "0 < (1::nat)" by simp_all
  note t3 = upscaleNearest_replicates [OF wf three]
  note t1 = upscaleNearest_replicates [OF wf one]
  have w: "width (upscaleNearest drawImageNearest ?src 3) = 6"
    using t3 [THEN conjunct1] by simp
  have all: "\<forall>x<width ?src * 3. \<forall>y<height ?src * 3.
               pixelAt (upscaleNearest drawImageNearest ?src 3) x y
               = pixelAt ?src (x div 3) (y div 3)"
    using t3 by (elim conjE)
  have a: "pixelAt (upscaleNearest drawImageNearest ?src 3) 5 5 = (10, 11, 12, 77)"
    using all [rule_format, of 5 5] by (simp add: pixelAt_def)
  have b: "pixelAt (upscaleNearest drawImageNearest ?src 3) 2 4 = (7, 8, 9, 255)"
    using all [rule_format, of 2 4] by (simp add: pixelAt_def)
  have c: "upscaleNearest drawImageNearest ?src 1 = ?src"
    using t1 by (elim conjE) simp
  from wf w a b c show ?thesis by (intro conjI)
qed

end
